theory Spec2Isabelle
  imports Main "HOL-Library.Sublist" "HOL-Library.Char_ord" "HOL-Library.List_Lexorder"
begin

section \<open>Python strings\<close>

text \<open>
  A Python \<open>str\<close> is modelled as a \<open>string\<close>; the characters are the code points below 256.
  \<open>is_space\<close> is \<open>str.isspace\<close> on these code points, which is also the class \<open>\s\<close> of the
  module \<open>re\<close> for a \<open>str\<close> pattern.
\<close>

definition is_space :: "char \<Rightarrow> bool" where
  "is_space c = (let n = (of_char c :: nat) in
     (9 \<le> n \<and> n \<le> 13) \<or> (28 \<le> n \<and> n \<le> 32) \<or> n = 133 \<or> n = 160)"

text \<open>\<open>s.strip()\<close> and \<open>s.strip(chars)\<close>.\<close>

definition strip :: "string \<Rightarrow> string" where
  "strip s = rev (dropWhile is_space (rev (dropWhile is_space s)))"

definition strip_chars :: "string \<Rightarrow> string \<Rightarrow> string" where
  "strip_chars cs s =
     rev (dropWhile (\<lambda>c. c \<in> set cs) (rev (dropWhile (\<lambda>c. c \<in> set cs) s)))"

text \<open>
  \<open>s.splitlines()\<close>: the line boundaries of a \<open>str\<close> below code point 256 are LF, VT, FF, CR,
  CR LF, FS, GS, RS and NEL; the boundaries are dropped, and there is no empty last line.
\<close>

definition is_linebreak :: "char \<Rightarrow> bool" where
  "is_linebreak c = (let n = (of_char c :: nat) in
     (10 \<le> n \<and> n \<le> 13) \<or> (28 \<le> n \<and> n \<le> 30) \<or> n = 133)"

fun splitlines_aux :: "string \<Rightarrow> string \<Rightarrow> string list" where
  "splitlines_aux cur [] = (if cur = [] then [] else [rev cur])"
| "splitlines_aux cur (c # cs) =
     (if c = CHR 0x0D then
        (case cs of
           [] \<Rightarrow> rev cur # splitlines_aux [] cs
         | d # ds \<Rightarrow> if d = CHR 0x0A then rev cur # splitlines_aux [] ds
                     else rev cur # splitlines_aux [] cs)
      else if is_linebreak c then rev cur # splitlines_aux [] cs
      else splitlines_aux (c # cur) cs)"

definition splitlines :: "string \<Rightarrow> string list" where
  "splitlines s = splitlines_aux [] s"

text \<open>\<open>s.partition(sep)\<close> and \<open>s.split(sep)\<close> for a separator of one character.\<close>

definition partition_chr :: "char \<Rightarrow> string \<Rightarrow> string \<times> string \<times> string" where
  "partition_chr sep s =
     (case dropWhile (\<lambda>c. c \<noteq> sep) s of
        [] \<Rightarrow> (s, [], [])
      | c # cs \<Rightarrow> (takeWhile (\<lambda>c. c \<noteq> sep) s, [sep], cs))"

fun split_aux :: "char \<Rightarrow> string \<Rightarrow> string \<Rightarrow> string list" where
  "split_aux sep cur [] = [rev cur]"
| "split_aux sep cur (c # cs) =
     (if c = sep then rev cur # split_aux sep [] cs else split_aux sep (c # cur) cs)"

definition split_chr :: "char \<Rightarrow> string \<Rightarrow> string list" where
  "split_chr sep s = split_aux sep [] s"

text \<open>\<open>sep.join(xs)\<close>, \<open>x in s\<close> on strings, and \<open>s.startswith\<close>, \<open>s.endswith\<close> with a tuple.\<close>

fun join :: "string \<Rightarrow> string list \<Rightarrow> string" where
  "join sep [] = []"
| "join sep [x] = x"
| "join sep (x # y # ys) = x @ sep @ join sep (y # ys)"

fun py_in :: "string \<Rightarrow> string \<Rightarrow> bool" where
  "py_in x [] = (x = [])"
| "py_in x (c # cs) = (prefix x (c # cs) \<or> py_in x cs)"

definition startswith :: "string \<Rightarrow> string list \<Rightarrow> bool" where
  "startswith s ps = list_ex (\<lambda>p. prefix p s) ps"

definition endswith :: "string \<Rightarrow> string list \<Rightarrow> bool" where
  "endswith s ps = list_ex (\<lambda>p. prefix (rev p) (rev s)) ps"

text \<open>The exceptions that the modelled code can raise.\<close>

datatype error =
    IndexError
  | ZeroDivisionError
  | ValueError
  | FileNotFoundError string
  | FileExistsError string
  | IsADirectoryError string
  | OSError string

text \<open>\<open>xs[0]\<close>.\<close>

definition index0 :: "'a list \<Rightarrow> error + 'a" where
  "index0 xs = (case xs of [] \<Rightarrow> Inl IndexError | x # _ \<Rightarrow> Inr x)"

section \<open>The paths of \<open>os.path\<close> (posixpath)\<close>

definition path_join :: "string \<Rightarrow> string \<Rightarrow> string" where
  "path_join a b =
     (if prefix ''/'' b then b
      else if a = [] \<or> prefix ''/'' (rev a) then a @ b
      else a @ ''/'' @ b)"

definition basename :: "string \<Rightarrow> string" where
  "basename p = rev (takeWhile (\<lambda>c. c \<noteq> CHR ''/'') (rev p))"

definition dirname :: "string \<Rightarrow> string" where
  "dirname p =
     (let head = rev (dropWhile (\<lambda>c. c \<noteq> CHR ''/'') (rev p))
      in if head \<noteq> [] \<and> (\<exists>c \<in> set head. c \<noteq> CHR ''/'')
         then rev (dropWhile (\<lambda>c. c = CHR ''/'') (rev head)) else head)"

fun normpath_comps :: "bool \<Rightarrow> string list \<Rightarrow> string list \<Rightarrow> string list" where
  "normpath_comps initial_slashes new_comps [] = new_comps"
| "normpath_comps initial_slashes new_comps (part # parts) =
     (if part = [] \<or> part = ''.'' then normpath_comps initial_slashes new_comps parts
      else if part \<noteq> ''..'' \<or> (\<not> initial_slashes \<and> new_comps = [])
                \<or> (new_comps \<noteq> [] \<and> last new_comps = ''..'')
      then normpath_comps initial_slashes (new_comps @ [part]) parts
      else if new_comps \<noteq> [] then normpath_comps initial_slashes (butlast new_comps) parts
      else normpath_comps initial_slashes new_comps parts)"

definition normpath :: "string \<Rightarrow> string" where
  "normpath p =
     (if p = [] then ''.''
      else let initial_slashes =
                 (if prefix ''/'' p
                  then (if prefix ''//'' p \<and> \<not> prefix ''///'' p then 2 else 1) else (0::nat));
               comps = normpath_comps (0 < initial_slashes) [] (split_chr CHR ''/'' p);
               q = replicate initial_slashes CHR ''/'' @ join ''/'' comps
           in if q = [] then ''.'' else q)"

section \<open>Regular expressions\<close>

text \<open>
  The patterns of the program are compiled by the module \<open>re\<close> with \<open>MULTILINE | DOTALL\<close>.
  The constructs they use are modelled by a backtracking matcher in continuation style:
  a matcher takes the state (whether the position is at the start of a line, the rest of the
  input, the groups captured so far) and the continuation that matches what follows, and
  returns the first success in the order of preference of \<open>re\<close> (a greedy repetition tries one
  more iteration first, a lazy one tries the continuation first, an alternative tries its left
  branch first). In all three patterns an iteration of a repetition consumes a character; the
  model gives up an iteration that consumes nothing.
\<close>

datatype regex =
    REps
  | RCls "char \<Rightarrow> bool"
  | RBol
  | REol
  | RSeq regex regex
  | RAlt regex regex
  | RStar regex
  | RLazy regex
  | RGroup nat regex

type_synonym mstate = "bool \<times> string \<times> string list"

fun star_greedy ::
  "(mstate \<Rightarrow> (mstate \<Rightarrow> mstate option) \<Rightarrow> mstate option) \<Rightarrow> nat \<Rightarrow>
     mstate \<Rightarrow> (mstate \<Rightarrow> mstate option) \<Rightarrow> mstate option" where
  "star_greedy f 0 st k = k st"
| "star_greedy f (Suc n) st k =
     (case f st (\<lambda>st'. if length (fst (snd st')) < length (fst (snd st))
                         then star_greedy f n st' k else None) of
        Some x \<Rightarrow> Some x
      | None \<Rightarrow> k st)"

fun star_lazy ::
  "(mstate \<Rightarrow> (mstate \<Rightarrow> mstate option) \<Rightarrow> mstate option) \<Rightarrow> nat \<Rightarrow>
     mstate \<Rightarrow> (mstate \<Rightarrow> mstate option) \<Rightarrow> mstate option" where
  "star_lazy f 0 st k = k st"
| "star_lazy f (Suc n) st k =
     (case k st of
        Some x \<Rightarrow> Some x
      | None \<Rightarrow> f st (\<lambda>st'. if length (fst (snd st')) < length (fst (snd st))
                               then star_lazy f n st' k else None))"

text \<open>
  \<open>^\<close> and \<open>$\<close> are those of \<open>MULTILINE\<close> (after and before a line feed, and at both ends of the
  input); a class is given by its predicate, and \<open>.\<close> is the class of all characters
  (\<open>DOTALL\<close>). A repetition runs on as many iterations as the input has characters left.
\<close>

primrec rmatch :: "regex \<Rightarrow> mstate \<Rightarrow> (mstate \<Rightarrow> mstate option) \<Rightarrow> mstate option" where
  "rmatch REps st k = k st"
| "rmatch (RCls P) st k =
     (case fst (snd st) of
        [] \<Rightarrow> None
      | c # cs \<Rightarrow> if P c then k (c = CHR 0x0A, cs, snd (snd st)) else None)"
| "rmatch RBol st k = (if fst st then k st else None)"
| "rmatch REol st k =
     (case fst (snd st) of
        [] \<Rightarrow> k st
      | c # cs \<Rightarrow> if c = CHR 0x0A then k st else None)"
| "rmatch (RSeq r1 r2) st k = rmatch r1 st (\<lambda>st'. rmatch r2 st' k)"
| "rmatch (RAlt r1 r2) st k =
     (case rmatch r1 st k of Some x \<Rightarrow> Some x | None \<Rightarrow> rmatch r2 st k)"
| "rmatch (RStar r) st k = star_greedy (rmatch r) (length (fst (snd st))) st k"
| "rmatch (RLazy r) st k = star_lazy (rmatch r) (length (fst (snd st))) st k"
| "rmatch (RGroup i r) st k =
     rmatch r st (\<lambda>st'. k (fst st', fst (snd st'),
        (snd (snd st'))[i := take (length (fst (snd st)) - length (fst (snd st')))
                                  (fst (snd st))]))"

fun lit :: "string \<Rightarrow> regex" where
  "lit [] = REps"
| "lit (c # cs) = RSeq (RCls ((=) c)) (lit cs)"

definition RPlus :: "regex \<Rightarrow> regex" where
  "RPlus r = RSeq r (RStar r)"

text \<open>
  \<open>pattern.findall(s)\<close>: the matches from left to right, each search starting where the
  last match ended. The result lists, for each match, the text of every group (the empty
  string for a group that took no part in the match).
\<close>

function findall_from :: "regex \<Rightarrow> nat \<Rightarrow> bool \<Rightarrow> string \<Rightarrow> string list list" where
  "findall_from r ng b s =
     (case rmatch r (b, s, replicate ng []) Some of
        Some st' \<Rightarrow>
          if length (fst (snd st')) < length s
          then snd (snd st') # findall_from r ng (fst st') (fst (snd st'))
          else (case s of
                  [] \<Rightarrow> [snd (snd st')]
                | c # cs \<Rightarrow> snd (snd st') # findall_from r ng (c = CHR 0x0A) cs)
      | None \<Rightarrow>
          (case s of [] \<Rightarrow> [] | c # cs \<Rightarrow> findall_from r ng (c = CHR 0x0A) cs))"
  by pat_completeness auto
termination
  by (relation "measure (\<lambda>(r, ng, b, s). length s)") auto

definition findall :: "regex \<Rightarrow> nat \<Rightarrow> string \<Rightarrow> string list list" where
  "findall r ng s = findall_from r ng True s"

subsection \<open>The three patterns of the program\<close>

definition any_char :: "char \<Rightarrow> bool" where
  "any_char c = True"

text \<open>The class \<^verbatim>\<open>[\s+private\/\*]\<close>.\<close>

definition rule_prefix_class :: "char \<Rightarrow> bool" where
  "rule_prefix_class c = (is_space c \<or> c \<in> set ''+private/*'')"

text \<open>The class \<^verbatim>\<open>[0-9a-zA-Z_\@\#\$\%\^\&\(\)\-\=\:\s]\<close>.\<close>

definition rule_header_class :: "char \<Rightarrow> bool" where
  "rule_header_class c = (let n = (of_char c :: nat) in
     (48 \<le> n \<and> n \<le> 57) \<or> (97 \<le> n \<and> n \<le> 122) \<or> (65 \<le> n \<and> n \<le> 90)
     \<or> c \<in> set ''_@#$%^&()-=:'' \<or> is_space c)"

text \<open>\<^verbatim>\<open>(^[\s+private\/\*]*rule\s[0-9a-zA-Z_\@\#\$\%\^\&\(\)\-\=\:\s]+\{.*?condition.*?\s\})\<close>\<close>

definition yara_rule_regex :: regex where
  "yara_rule_regex =
     RGroup 0 (RSeq RBol (RSeq (RStar (RCls rule_prefix_class)) (RSeq (lit ''rule'')
       (RSeq (RCls is_space) (RSeq (RPlus (RCls rule_header_class)) (RSeq (lit ''{'')
       (RSeq (RLazy (RCls any_char)) (RSeq (lit ''condition'') (RSeq (RLazy (RCls any_char))
       (RSeq (RCls is_space) (lit ''}'')))))))))))"

text \<open>\<^verbatim>\<open>(/\*([^*]|[\r\n]|(\*+([^*/]|[\r\n])))*\*+/|^//.*?$)\<close>\<close>

definition cr_or_lf :: "char \<Rightarrow> bool" where
  "cr_or_lf c = (c = CHR 0x0D \<or> c = CHR 0x0A)"

definition comments_regex :: regex where
  "comments_regex =
     RGroup 0 (RAlt
       (RSeq (lit ''/*'')
         (RSeq (RStar (RGroup 1
                  (RAlt (RCls (\<lambda>c. c \<noteq> CHR ''*''))
                  (RAlt (RCls cr_or_lf)
                        (RGroup 2 (RSeq (RPlus (RCls ((=) CHR ''*'')))
                           (RGroup 3 (RAlt (RCls (\<lambda>c. c \<noteq> CHR ''*'' \<and> c \<noteq> CHR ''/''))
                                           (RCls cr_or_lf)))))))))
           (RSeq (RPlus (RCls ((=) CHR ''*''))) (lit ''/''))))
       (RSeq RBol (RSeq (lit ''//'') (RSeq (RLazy (RCls any_char)) REol))))"

text \<open>\<^verbatim>\<open>(^import\s+.*?$)\<close>\<close>

definition imports_regex :: regex where
  "imports_regex =
     RGroup 0 (RSeq RBol (RSeq (lit ''import'') (RSeq (RPlus (RCls is_space))
       (RSeq (RLazy (RCls any_char)) REol))))"

text \<open>
  \<open>findall\<close> of a pattern with one group returns the texts of that group, and of a pattern
  with several groups the tuples of all groups.
\<close>

definition rules_re_findall :: "string \<Rightarrow> string list" where
  "rules_re_findall content = map hd (findall yara_rule_regex 1 content)"

definition import_re_findall :: "string \<Rightarrow> string list" where
  "import_re_findall content = map hd (findall imports_regex 1 content)"

definition comments_re_findall :: "string \<Rightarrow> string list list" where
  "comments_re_findall content = findall comments_regex 4 content"

section \<open>The environment and the state of a run\<close>

text \<open>
  What the program takes from the Python library and the operating system is a parameter:
  \<open>decode e bs\<close> is what \<open>read()\<close> returns for a file of bytes \<open>bs\<close> opened in text mode with
  the encoding \<open>e\<close> (\<open>None\<close> when it raises), \<open>encode t\<close> is what \<open>f.write(t)\<close> puts into a file
  opened with the encoding utf-8 (\<open>None\<close> when it raises), \<open>strftime\<close> is the time stamp of
  the header line, \<open>verbose\<close> is the flag set from the command line, \<open>set_list S\<close> is
  \<open>list(S)\<close>, the elements of a Python set in the order in which the set iterates, and
  \<open>flush p bs\<close> tells whether closing the file opened at \<open>p\<close> writes out the bytes \<open>bs\<close> that
  \<open>f.write\<close> has put into it (\<open>False\<close> when \<open>close\<close> raises, as on a full device).
\<close>

record env =
  decode :: "string \<Rightarrow> string \<Rightarrow> string option"
  encode :: "string \<Rightarrow> string option"
  strftime :: string
  verbose :: bool
  set_list :: "string set \<Rightarrow> string list"
  flush :: "string \<Rightarrow> string \<Rightarrow> bool"

text \<open>What is written to standard output, one value for each message of the program.\<close>

datatype msg =
    MsgReadError string string
  | MsgTryingCodec string string
  | MsgNoCodec string
  | MsgRules nat string
  | MsgWriteError string

text \<open>
  The module's global variables, the file system (the directories and the files with their
  bytes, under their normalised paths), and standard output. \<open>lock_held\<close> is set when
  a thread has died between \<open>lock.acquire()\<close> and \<open>lock.release()\<close>.
\<close>

record state =
  all_imports :: "string set"
  all_yara_rules :: "string set"
  rule_names :: "string set"
  total_duplicate_rules :: int
  total_rules :: int
  rule_dict :: "string \<rightharpoonup> string list"
  dirs :: "string set"
  files :: "string \<rightharpoonup> string"
  stdout :: "msg list"
  lock_held :: bool

subsection \<open>The file system\<close>

definition isdir :: "state \<Rightarrow> string \<Rightarrow> bool" where
  "isdir s p = (let q = normpath p in q = ''.'' \<or> q = ''/'' \<or> q \<in> dirs s)"

definition exists :: "state \<Rightarrow> string \<Rightarrow> bool" where
  "exists s p = (isdir s p \<or> files s (normpath p) \<noteq> None)"

definition mkdir :: "state \<Rightarrow> string \<Rightarrow> error + state" where
  "mkdir s p =
     (if exists s p then Inl (FileExistsError p)
      else if \<not> isdir s (dirname (normpath p)) then Inl (FileNotFoundError p)
      else Inr (s\<lparr>dirs := insert (normpath p) (dirs s)\<rparr>))"

definition open_r :: "state \<Rightarrow> string \<Rightarrow> error + string" where
  "open_r s p =
     (if isdir s p then Inl (IsADirectoryError p)
      else case files s (normpath p) of
             None \<Rightarrow> Inl (FileNotFoundError p)
           | Some bs \<Rightarrow> Inr bs)"

definition open_w :: "state \<Rightarrow> string \<Rightarrow> error + state" where
  "open_w s p =
     (if isdir s p then Inl (IsADirectoryError p)
      else if \<not> isdir s (dirname (normpath p)) then Inl (FileNotFoundError p)
      else Inr (s\<lparr>files := (files s)(normpath p \<mapsto> [])\<rparr>))"

section \<open>write\_file\<close>

datatype py_value = PyList "string list" | PyStr string

definition file_header :: "env \<Rightarrow> string" where
  "file_header env =
     ''/* file generated by yara deduper 0.2 @ '' @ strftime env @ '' */'' @ [CHR 0x0A, CHR 0x0A]"

text \<open>
  A list of strings is written as its stripped, non-empty elements with a blank line
  between them. \<open>io.open\<close> stands outside the \<open>try\<close>: its exception leaves the function. An
  exception of one of the two \<open>f.write\<close> calls is caught and reported. The \<open>try\<close> stands
  inside the \<open>with\<close> block: leaving the block closes the file, which writes out what
  \<open>f.write\<close> has put into it, and an exception of this \<open>close\<close> leaves the function.
\<close>

definition contents_text :: "py_value \<Rightarrow> string" where
  "contents_text contents =
     (case contents of
        PyList xs \<Rightarrow> join [CHR 0x0A, CHR 0x0A] (filter (\<lambda>f. f \<noteq> []) (map strip xs))
      | PyStr t \<Rightarrow> t)"

text \<open>The last step of the \<open>with\<close> block, in a state where the file holds what was put into it.\<close>

definition close_file :: "env \<Rightarrow> state \<Rightarrow> string \<Rightarrow> error + state" where
  "close_file env s filepath =
     (if flush env filepath (case files s (normpath filepath) of None \<Rightarrow> [] | Some bs \<Rightarrow> bs)
      then Inr s else Inl (OSError filepath))"

definition write_file :: "env \<Rightarrow> state \<Rightarrow> string \<Rightarrow> py_value \<Rightarrow> error + state" where
  "write_file env s filepath contents =
     (let text = contents_text contents
      in case open_w s filepath of
           Inl e \<Rightarrow> Inl e
         | Inr s1 \<Rightarrow>
             close_file env
               (case encode env (file_header env) of
                  None \<Rightarrow> s1\<lparr>stdout := stdout s1 @ [MsgWriteError filepath]\<rparr>
                | Some hb \<Rightarrow>
                    (case encode env text of
                       None \<Rightarrow> s1\<lparr>files := (files s1)(normpath filepath \<mapsto> hb),
                                  stdout := stdout s1 @ [MsgWriteError filepath]\<rparr>
                     | Some tb \<Rightarrow> s1\<lparr>files := (files s1)(normpath filepath \<mapsto> hb @ tb)\<rparr>))
               filepath)"

section \<open>extract\<close>

definition encodings :: "string list" where
  "encodings = [''utf-8'', ''cp1252'', ''windows-1250'', ''windows-1252'', ''ascii'']"

fun index_of :: "'a list \<Rightarrow> 'a \<Rightarrow> nat" where
  "index_of [] x = 0"
| "index_of (y # ys) x = (if y = x then 0 else Suc (index_of ys x))"

text \<open>
  The loop over the encodings: \<open>io.open\<close> is outside the \<open>try\<close>, the exception of \<open>read()\<close> is
  caught and the next encoding tried. The result is the value of \<open>content\<close> after the loop.
\<close>

fun read_content :: "env \<Rightarrow> state \<Rightarrow> string \<Rightarrow> string list \<Rightarrow> error + (string option \<times> state)" where
  "read_content env s yara_file [] = Inr (None, s)"
| "read_content env s yara_file (e # es) =
     (case open_r s yara_file of
        Inl err \<Rightarrow> Inl err
      | Inr bs \<Rightarrow>
          (case decode env e bs of
             Some content \<Rightarrow> Inr (Some content, s)
           | None \<Rightarrow>
               read_content env
                 (s\<lparr>stdout := stdout s @
                       [MsgReadError yara_file e,
                        if index_of encodings e + 1 < length encodings
                        then MsgTryingCodec (encodings ! (index_of encodings e + 1)) yara_file
                        else MsgNoCodec yara_file]\<rparr>)
                 yara_file es))"

text \<open>\<^verbatim>\<open>rule.strip().strip("*/").strip().strip("/*").strip()\<close>\<close>

definition clean_rule :: "string \<Rightarrow> string" where
  "clean_rule rule = strip (strip_chars ''/*'' (strip (strip_chars ''*/'' (strip rule))))"

text \<open>
  The part of \<open>extract\<close> after the file is read. The imports and the comments are only looked
  for when the pattern of the rules has matched.
\<close>

definition extract_content :: "string \<Rightarrow> string list \<times> string list \<times> string list" where
  "extract_content content =
     (let yara_rules = rules_re_findall content
      in if yara_rules \<noteq> [] then
           (let yara_rules = map clean_rule yara_rules;
                imports = import_re_findall content;
                commented_yar_rules = comments_re_findall content
            in if commented_yar_rules \<noteq> [] then
                 (let commented = filter (\<lambda>f. f \<noteq> [])
                        (filter (\<lambda>comments. startswith (strip comments) [''/*'', ''//''])
                           (concat commented_yar_rules))
                  in (imports, filter (\<lambda>x. \<not> py_in x (concat commented)) yara_rules, commented))
               else (imports, yara_rules, []))
         else ([], [], []))"

type_synonym extracted = "string list option \<times> string list option \<times> string list option"

text \<open>\<open>extract\<close> (the name is a keyword of Isabelle).\<close>

definition extract_file :: "env \<Rightarrow> state \<Rightarrow> string \<Rightarrow> error + (extracted \<times> state)" where
  "extract_file env s yara_file =
     (case read_content env s yara_file encodings of
        Inl err \<Rightarrow> Inl err
      | Inr (content, s1) \<Rightarrow>
          (case content of
             None \<Rightarrow> Inr ((None, None, None), s1)
           | Some c \<Rightarrow>
               if c = [] then Inr ((None, None, None), s1)
               else (let s2 = (if verbose env
                               then s1\<lparr>stdout := stdout s1 @
                                      [MsgRules (length (rules_re_findall c)) yara_file]\<rparr>
                               else s1);
                         (imports, yara_rules, commented) = extract_content c
                     in Inr ((Some imports, Some yara_rules, Some commented), s2))))"

section \<open>dedupe\<close>

text \<open>The name of a rule, as the loop over the rules of a file computes it.\<close>

definition rulename :: "string \<Rightarrow> error + string" where
  "rulename r =
     (case index0 (splitlines (strip r)) of
        Inl e \<Rightarrow> Inl e
      | Inr l \<Rightarrow>
          (let rn = strip (fst (partition_chr CHR ''{'' (strip l)))
           in if py_in '':'' rn
              then (case index0 (split_chr CHR '':'' r) of
                      Inl e \<Rightarrow> Inl e
                    | Inr x \<Rightarrow> Inr (strip x))
              else Inr rn))"

text \<open>\<^verbatim>\<open>"\n// rule from: {}\n".format(yf) + r.strip() + "\n"\<close>\<close>

definition provenance :: "string \<Rightarrow> string \<Rightarrow> string" where
  "provenance yf r = [CHR 0x0A] @ ''// rule from: '' @ yf @ [CHR 0x0A] @ strip r @ [CHR 0x0A]"

text \<open>
  One iteration of the loop over the rules of the file \<open>yf\<close>; the second component is the
  local variable \<open>deduped_content\<close>.
\<close>

definition register :: "string \<Rightarrow> string \<Rightarrow> state \<times> string \<Rightarrow> error + (state \<times> string)" where
  "register yf r sb =
     (case rulename r of
        Inl e \<Rightarrow> Inl e
      | Inr n \<Rightarrow>
          (let s = fst sb; deduped_content = snd sb;
               s1 = s\<lparr>rule_dict := (rule_dict s)
                      (n \<mapsto> (case rule_dict s n of None \<Rightarrow> [] | Some fs \<Rightarrow> fs) @ [yf])\<rparr>
           in if n \<notin> rule_names s1
              then Inr (s1\<lparr>rule_names := insert n (rule_names s1),
                            all_yara_rules := insert (provenance yf r) (all_yara_rules s1)\<rparr>,
                        deduped_content @ strip r @ [CHR 0x0A, CHR 0x0A])
              else Inr (s1\<lparr>total_duplicate_rules := total_duplicate_rules s1 + 1\<rparr>,
                        deduped_content)))"

fun register_all :: "string \<Rightarrow> string list \<Rightarrow> state \<times> string \<Rightarrow> error + (state \<times> string)" where
  "register_all yf [] sb = Inr sb"
| "register_all yf (r # rs) sb =
     (case register yf r sb of
        Inl e \<Rightarrow> Inl e
      | Inr sb' \<Rightarrow> register_all yf rs sb')"

definition yf_rule_dir :: "string \<Rightarrow> string" where
  "yf_rule_dir yf = basename (normpath (dirname yf))"

definition new_yf_rule_dir :: "string \<Rightarrow> string \<Rightarrow> string" where
  "new_yf_rule_dir out yf = path_join (path_join out ''deduped_rules'') (yf_rule_dir yf)"

definition new_yf_commented_rule_dir :: "string \<Rightarrow> string \<Rightarrow> string" where
  "new_yf_commented_rule_dir out yf = path_join (path_join out ''commented_rules'') (yf_rule_dir yf)"

text \<open>\<open>not x\<close> for a value that is \<open>None\<close> or a list, and the list it stands for.\<close>

definition falsy :: "'a list option \<Rightarrow> bool" where
  "falsy x = (x = None \<or> x = Some [])"

definition the_list :: "'a list option \<Rightarrow> 'a list" where
  "the_list x = (case x of None \<Rightarrow> [] | Some xs \<Rightarrow> xs)"

text \<open>The steps of the body of the loop over the files.\<close>

definition skip_file :: "env \<Rightarrow> state \<Rightarrow> string \<Rightarrow> state" where
  "skip_file env s yf =
     (if verbose env then s\<lparr>stdout := stdout s @ [MsgRules 0 (basename yf)]\<rparr> else s)"

definition merge_imports :: "state \<Rightarrow> string list \<Rightarrow> state \<times> string" where
  "merge_imports s imports =
     (s\<lparr>all_imports := all_imports s \<union> set imports\<rparr>,
      concat imports @ [CHR 0x0A, CHR 0x0A, CHR 0x0A])"

definition commented_contents :: "string list \<Rightarrow> string list \<Rightarrow> py_value" where
  "commented_contents imports commented =
     PyList (if imports \<noteq> [] then imports @ commented else commented)"

definition process_commented ::
  "env \<Rightarrow> string \<Rightarrow> state \<Rightarrow> string \<Rightarrow> string list \<Rightarrow> string list \<Rightarrow> error + state" where
  "process_commented env out s yf imports commented =
     (case (if \<not> exists s (new_yf_commented_rule_dir out yf)
            then mkdir s (new_yf_commented_rule_dir out yf) else Inr s) of
        Inl e \<Rightarrow> Inl e
      | Inr s1 \<Rightarrow>
          write_file env s1 (path_join (new_yf_commented_rule_dir out yf) (basename yf))
            (commented_contents imports commented))"

definition count_rules :: "state \<Rightarrow> string list \<Rightarrow> state" where
  "count_rules s yar_rules = s\<lparr>total_rules := total_rules s + int (length yar_rules)\<rparr>"

definition rules_dir :: "string \<Rightarrow> state \<Rightarrow> string \<Rightarrow> error + state" where
  "rules_dir out s yf =
     (if \<not> isdir s (new_yf_rule_dir out yf) then mkdir s (new_yf_rule_dir out yf) else Inr s)"

definition write_deduped :: "env \<Rightarrow> string \<Rightarrow> state \<Rightarrow> string \<Rightarrow> string \<Rightarrow> error + state" where
  "write_deduped env out s yf deduped_content =
     write_file env s (path_join (new_yf_rule_dir out yf) (basename yf)) (PyStr deduped_content)"

definition process_rules ::
  "env \<Rightarrow> string \<Rightarrow> state \<Rightarrow> string \<Rightarrow> string list \<Rightarrow> string \<Rightarrow> error + state" where
  "process_rules env out s yf yar_rules deduped_content =
     (case rules_dir out (count_rules s yar_rules) yf of
        Inl e \<Rightarrow> Inl e
      | Inr s1 \<Rightarrow>
          (case register_all yf yar_rules (s1, deduped_content) of
             Inl e \<Rightarrow> Inl e
           | Inr sb \<Rightarrow> write_deduped env out (fst sb) yf (snd sb)))"

text \<open>The body of the loop for the file \<open>yf\<close>.\<close>

definition process_file :: "env \<Rightarrow> string \<Rightarrow> state \<Rightarrow> string \<Rightarrow> error + state" where
  "process_file env out s yf =
     (case extract_file env s yf of
        Inl e \<Rightarrow> Inl e
      | Inr (ex, s1) \<Rightarrow>
          (let imports = fst ex; yar_rules = fst (snd ex); commented_yar_rules = snd (snd ex)
           in if falsy imports \<and> falsy yar_rules \<and> falsy commented_yar_rules
              then Inr (skip_file env s1 yf)
              else
                (let sb = (if \<not> falsy imports then merge_imports s1 (the_list imports)
                           else (s1, []))
                 in case (if \<not> falsy commented_yar_rules
                          then process_commented env out (fst sb) yf (the_list imports)
                                 (the_list commented_yar_rules)
                          else Inr (fst sb)) of
                      Inl e \<Rightarrow> Inl e
                    | Inr s2 \<Rightarrow>
                        if \<not> falsy yar_rules
                        then process_rules env out s2 yf (the_list yar_rules) (snd sb)
                        else Inr s2)))"

fun dedupe :: "env \<Rightarrow> string list \<Rightarrow> string \<Rightarrow> state \<Rightarrow> error + state" where
  "dedupe env [] out s = Inr s"
| "dedupe env (yf # yara_files) out s =
     (case process_file env out s yf of
        Inl e \<Rightarrow> Inl e
      | Inr s' \<Rightarrow> dedupe env yara_files out s')"

section \<open>The threads of dedupe\_threaded\<close>

text \<open>
  \<open>dedupe\<close> as a machine, for the runs in which several threads execute it at once. A thread
  is at one of the points of the loop body and holds the local variables; a step runs the
  thread to the next point. What stands between \<open>lock.acquire()\<close> and \<open>lock.release()\<close> is
  one step, and so is every call of the file system. An exception ends the thread; the one
  that \<open>os.mkdir\<close> raises while the thread holds the lock leaves the lock held.
\<close>

datatype pc =
    AtLoop
  | AtImports
  | AtCommented
  | AtMkdir
  | AtWriteCommented
  | AtRules
  | AtRegister
  | Dead error

record locals =
  l_files :: "string list"
  l_yf :: string
  l_imports :: "string list"
  l_rules :: "string list"
  l_commented :: "string list"
  l_content :: string
  l_todo :: "string list"

type_synonym thread = "pc \<times> locals"

definition thread_start :: "string list \<Rightarrow> thread" where
  "thread_start yara_files =
     (AtLoop, \<lparr>l_files = yara_files, l_yf = [], l_imports = [], l_rules = [],
               l_commented = [], l_content = [], l_todo = []\<rparr>)"

definition step_loop :: "env \<Rightarrow> locals \<Rightarrow> state \<Rightarrow> thread \<times> state" where
  "step_loop env l s =
     (case l_files l of
        [] \<Rightarrow> ((AtLoop, l), s)
      | f # fs \<Rightarrow>
          (case extract_file env s f of
             Inl e \<Rightarrow> ((Dead e, l), s)
           | Inr (ex, s1) \<Rightarrow>
               if falsy (fst ex) \<and> falsy (fst (snd ex)) \<and> falsy (snd (snd ex))
               then ((AtLoop, l\<lparr>l_files := fs\<rparr>), skip_file env s1 f)
               else ((AtImports,
                      l\<lparr>l_files := fs, l_yf := f, l_imports := the_list (fst ex),
                        l_rules := the_list (fst (snd ex)),
                        l_commented := the_list (snd (snd ex)), l_content := []\<rparr>), s1)))"

definition step_register :: "env \<Rightarrow> string \<Rightarrow> locals \<Rightarrow> state \<Rightarrow> thread \<times> state" where
  "step_register env out l s =
     (case l_todo l of
        [] \<Rightarrow>
          (case write_deduped env out s (l_yf l) (l_content l) of
             Inl e \<Rightarrow> ((Dead e, l), s)
           | Inr s1 \<Rightarrow> ((AtLoop, l), s1))
      | r # rs \<Rightarrow>
          (case register (l_yf l) r (s, l_content l) of
             Inl e \<Rightarrow> ((Dead e, l), s)
           | Inr sb \<Rightarrow> ((AtRegister, l\<lparr>l_todo := rs, l_content := snd sb\<rparr>), fst sb)))"

fun thread_step :: "env \<Rightarrow> string \<Rightarrow> thread \<Rightarrow> state \<Rightarrow> thread \<times> state" where
  "thread_step env out (AtLoop, l) s = step_loop env l s"
| "thread_step env out (AtImports, l) s =
     (if l_imports l \<noteq> []
      then ((AtCommented, l\<lparr>l_content := snd (merge_imports s (l_imports l))\<rparr>),
            fst (merge_imports s (l_imports l)))
      else ((AtCommented, l), s))"
| "thread_step env out (AtCommented, l) s =
     (if l_commented l \<noteq> []
      then (if \<not> exists s (new_yf_commented_rule_dir out (l_yf l))
            then ((AtMkdir, l), s) else ((AtWriteCommented, l), s))
      else ((AtRules, l), s))"
| "thread_step env out (AtMkdir, l) s =
     (case mkdir s (new_yf_commented_rule_dir out (l_yf l)) of
        Inl e \<Rightarrow> ((Dead e, l), s)
      | Inr s1 \<Rightarrow> ((AtWriteCommented, l), s1))"
| "thread_step env out (AtWriteCommented, l) s =
     (case write_file env s
             (path_join (new_yf_commented_rule_dir out (l_yf l)) (basename (l_yf l)))
             (commented_contents (l_imports l) (l_commented l)) of
        Inl e \<Rightarrow> ((Dead e, l), s)
      | Inr s1 \<Rightarrow> ((AtRules, l), s1))"
| "thread_step env out (AtRules, l) s =
     (if l_rules l \<noteq> []
      then (case rules_dir out (count_rules s (l_rules l)) (l_yf l) of
              Inl e \<Rightarrow> ((Dead e, l), (count_rules s (l_rules l))\<lparr>lock_held := True\<rparr>)
            | Inr s1 \<Rightarrow> ((AtRegister, l\<lparr>l_todo := l_rules l\<rparr>), s1))
      else ((AtLoop, l), s))"
| "thread_step env out (AtRegister, l) s = step_register env out l s"
| "thread_step env out (Dead e, l) s = ((Dead e, l), s)"

text \<open>The rule that the next step of a thread registers, with its name and its file.\<close>

type_synonym event = "string \<times> string \<times> string"

definition reg_event :: "thread \<Rightarrow> event list" where
  "reg_event t =
     (if fst t = AtRegister
      then (case l_todo (snd t) of
              [] \<Rightarrow> []
            | r # rs \<Rightarrow> (case rulename r of Inl e \<Rightarrow> [] | Inr n \<Rightarrow> [(n, l_yf (snd t), r)]))
      else [])"

definition finished :: "thread \<Rightarrow> bool" where
  "finished t = (fst t = AtLoop \<and> l_files (snd t) = [])"

definition is_dead :: "thread \<Rightarrow> bool" where
  "is_dead t = (case fst t of Dead e \<Rightarrow> True | _ \<Rightarrow> False)"

definition needs_lock :: "thread \<Rightarrow> bool" where
  "needs_lock t =
     ((fst t = AtImports \<and> l_imports (snd t) \<noteq> [])
      \<or> (fst t = AtRules \<and> l_rules (snd t) \<noteq> [])
      \<or> reg_event t \<noteq> [])"

definition enabled :: "thread \<Rightarrow> state \<Rightarrow> bool" where
  "enabled t s = (\<not> finished t \<and> \<not> is_dead t \<and> (needs_lock t \<longrightarrow> \<not> lock_held s))"

text \<open>
  A run of the threads: at each step one of the enabled threads takes its step. The list
  is that of the rules registered, in the order of the run.
\<close>

inductive run ::
  "env \<Rightarrow> string \<Rightarrow> thread list \<times> state \<Rightarrow> event list \<Rightarrow> thread list \<times> state \<Rightarrow> bool"
  for env :: env and out :: string where
  run_done: "run env out c [] c"
| run_step:
    "i < length ts \<Longrightarrow> enabled (ts ! i) s \<Longrightarrow> thread_step env out (ts ! i) s = (t', s') \<Longrightarrow>
     run env out (ts[i := t'], s') evs c \<Longrightarrow>
     run env out (ts, s) (reg_event (ts ! i) @ evs) c"

text \<open>
  The shards of \<open>dedupe_threaded\<close>: \<open>total_items // __spin_threads__\<close> raises for no files,
  and \<open>range(0, len(yara_files), each_thread_items_count)\<close>, which raises for a step of 0, gives
  the start of each shard.
\<close>

definition spin_threads :: nat where
  "spin_threads = 10"

definition range_step :: "nat \<Rightarrow> nat \<Rightarrow> nat list" where
  "range_step n k = map (\<lambda>j. j * k) [0 ..< (n + k - 1) div k]"

definition dedupe_threaded_shards :: "nat \<Rightarrow> 'a list \<Rightarrow> error + 'a list list" where
  "dedupe_threaded_shards spin yara_files =
     (let total_items = length yara_files;
          spin1 = (if total_items \<le> spin then total_items else spin)
      in if spin1 = 0 then Inl ZeroDivisionError
         else (let each_thread_items_count = total_items div spin1
               in if each_thread_items_count = 0 then Inl ValueError
                  else Inr (map (\<lambda>i. take each_thread_items_count (drop i yara_files))
                        (range_step total_items each_thread_items_count))))"

definition dedupe_threaded :: "nat \<Rightarrow> string list \<Rightarrow> error + thread list" where
  "dedupe_threaded spin yara_files =
     (case dedupe_threaded_shards spin yara_files of
        Inl e \<Rightarrow> Inl e
      | Inr shards \<Rightarrow> Inr (map thread_start shards))"

section \<open>After the run: the report, the merged file and the index\<close>

definition total_rules_written :: "state \<Rightarrow> int" where
  "total_rules_written s = int (card (all_yara_rules s))"

text \<open>
  \<^verbatim>\<open>"\n".join(list(all_imports)) + "\n" * 2 + "\n\n".join(list(sorted(all_yara_rules)))\<close>
\<close>

definition merged_rules :: "state \<Rightarrow> string" where
  "merged_rules s = join [CHR 0x0A, CHR 0x0A] (sorted_list_of_set (all_yara_rules s))"

definition merged :: "env \<Rightarrow> state \<Rightarrow> string" where
  "merged env s =
     join [CHR 0x0A] (set_list env (all_imports s)) @ [CHR 0x0A, CHR 0x0A] @ merged_rules s"

definition write_all_in_one :: "env \<Rightarrow> string \<Rightarrow> state \<Rightarrow> error + state" where
  "write_all_in_one env out s =
     write_file env s (path_join (path_join out ''deduped_rules'') ''all_in_one.yar'')
       (PyStr (merged env s))"

text \<open>
  The index is made from what \<open>os.walk\<close> returns for the directory of the deduped rules:
  the list of the triples (directory, its subdirectories, its files).
\<close>

definition file_types :: "string list" where
  "file_types = [''.yar'', ''.yara'']"

definition index_yara_files :: "(string \<times> string list \<times> string list) list \<Rightarrow> string list" where
  "index_yara_files walk =
     concat (map (\<lambda>(root, ds, fs).
        map (path_join root)
          (filter (\<lambda>f. \<not> py_in ''all_in_one_rules.yar'' f \<and> endswith f file_types) fs)) walk)"

definition include_line :: "string \<Rightarrow> string" where
  "include_line f = ''include '' @ [CHR 0x22] @ f @ [CHR 0x22]"

definition index_files :: "(string \<times> string list \<times> string list) list \<Rightarrow> string" where
  "index_files walk = join [CHR 0x0A] (map include_line (index_yara_files walk))"

definition write_index ::
  "env \<Rightarrow> string \<Rightarrow> state \<Rightarrow> (string \<times> string list \<times> string list) list \<Rightarrow> error + state" where
  "write_index env out s walk =
     write_file env s (path_join (path_join out ''deduped_rules'') ''index.yar'')
       (PyStr (index_files walk))"

section \<open>Definitions for the statements\<close>

text \<open>
  The header of a rule block as the specification describes the name: the first line of the
  block up to its first \<open>{\<close>, and of that the part before the first \<open>:\<close>, without the
  surrounding white space.
\<close>

definition first_line :: "string \<Rightarrow> string" where
  "first_line s = takeWhile (\<lambda>c. \<not> is_linebreak c) s"



text \<open>A string that neither starts nor ends with white space.\<close>

definition stripped :: "string \<Rightarrow> bool" where
  "stripped y = (y = [] \<or> (\<not> is_space (hd y) \<and> \<not> is_space (last y)))"


text \<open>A list of eleven files, one more than there are threads.\<close>

definition eleven :: "string list" where
  "eleven = [''a.yar'', ''b.yar'', ''c.yar'', ''d.yar'', ''e.yar'', ''f.yar'', ''g.yar'',
             ''h.yar'', ''i.yar'', ''j.yar'', ''k.yar'']"


text \<open>
  What the loop over the encodings reads from a file of bytes \<open>bs\<close>: the text of the first
  encoding of the list that decodes it.
\<close>

fun first_decoded :: "env \<Rightarrow> string \<Rightarrow> string list \<Rightarrow> string option" where
  "first_decoded env bs [] = None"
| "first_decoded env bs (e # es) =
     (case decode env e bs of Some content \<Rightarrow> Some content | None \<Rightarrow> first_decoded env bs es)"

text \<open>Two states that differ at most in what was written to standard output.\<close>

definition same_but_stdout :: "state \<Rightarrow> state \<Rightarrow> bool" where
  "same_but_stdout s s' = (s' = s\<lparr>stdout := stdout s'\<rparr>)"

text \<open>The comment blocks that \<open>extract\<close> keeps from the matches of the pattern of comments.\<close>

definition comment_blocks :: "string \<Rightarrow> string list" where
  "comment_blocks content =
     filter (\<lambda>f. f \<noteq> [])
       (filter (\<lambda>comments. startswith (strip comments) [''/*'', ''//''])
          (concat (comments_re_findall content)))"

text \<open>An environment and a fresh state with given files, for the examples.\<close>

definition env0 :: env where
  "env0 = \<lparr>decode = (\<lambda>e bs. Some bs), encode = Some, strftime = ''T'', verbose = False,
            set_list = sorted_list_of_set, flush = (\<lambda>p bs. True)\<rparr>"

definition state0 :: "(string \<times> string) list \<Rightarrow> state" where
  "state0 fl =
     \<lparr>all_imports = {}, all_yara_rules = {}, rule_names = {}, total_duplicate_rules = 0,
      total_rules = 0, rule_dict = Map.empty,
      dirs = {''out'', ''out/deduped_rules'', ''out/commented_rules''},
      files = map_of fl, stdout = [], lock_held = False\<rparr>"

text \<open>A file whose only rule is commented out.\<close>

definition commented_only :: string where
  "commented_only = ''/*'' @ [CHR 0x0A] @ ''rule Foo { condition: true }'' @ [CHR 0x0A] @ ''*/''"

text \<open>
  A rule that is commented out line by line, and the text of it that \<open>extract\<close> returns.
\<close>

definition line_commented :: string where
  "line_commented = ''// rule Foo {'' @ [CHR 0x0A] @ ''// condition: true'' @ [CHR 0x0A] @ ''// }''"

definition line_commented_rule :: string where
  "line_commented_rule = ''rule Foo {'' @ [CHR 0x0A] @ ''// condition: true'' @ [CHR 0x0A] @ ''// }''"






text \<open>
  Of the rules registered in a run, those that were the first of their name, and the entry
  of the kept set that a registered rule stands for.
\<close>

fun firsts_from :: "string set \<Rightarrow> event list \<Rightarrow> event list" where
  "firsts_from seen [] = []"
| "firsts_from seen (e # es) =
     (if fst e \<in> seen then firsts_from seen es
      else e # firsts_from (insert (fst e) seen) es)"

definition firsts :: "event list \<Rightarrow> event list" where
  "firsts evs = firsts_from {} evs"

definition entry :: "event \<Rightarrow> string" where
  "entry e = provenance (fst (snd e)) (snd (snd e))"

text \<open>Two states with the same names, kept rules and count of duplicates.\<close>

definition kept_same :: "state \<Rightarrow> state \<Rightarrow> bool" where
  "kept_same s s' = (rule_names s' = rule_names s \<and> all_yara_rules s' = all_yara_rules s
     \<and> total_duplicate_rules s' = total_duplicate_rules s)"

text \<open>Two files that declare the rule \<open>Foo\<close>, the second one also a rule \<open>Bar\<close>.\<close>

definition foo_twice :: "(string \<times> string) list" where
  "foo_twice = [(''a/x.yar'', ''rule Foo { condition: true }''),
                (''b/y.yar'', ''rule Foo { condition: false }'' @ [CHR 0x0A]
                              @ ''rule Bar { condition: true }'')]"


text \<open>
  The rules that the loop over the rules of a file registers, and those that the serial
  pass registers, in their order.
\<close>

definition events_of :: "string \<Rightarrow> string list \<Rightarrow> event list" where
  "events_of yf rs =
     concat (map (\<lambda>r. case rulename r of Inl e \<Rightarrow> [] | Inr n \<Rightarrow> [(n, yf, r)]) rs)"

fun dedupe_events :: "env \<Rightarrow> string list \<Rightarrow> string \<Rightarrow> state \<Rightarrow> event list" where
  "dedupe_events env [] out s = []"
| "dedupe_events env (yf # yara_files) out s =
     (case extract_file env s yf of
        Inl e \<Rightarrow> []
      | Inr (ex, s1) \<Rightarrow> events_of yf (the_list (fst (snd ex))))
     @ (case process_file env out s yf of
          Inl e \<Rightarrow> []
        | Inr s' \<Rightarrow> dedupe_events env yara_files out s')"

text \<open>
  A path with a line feed in it, and two files of which the second has this path: the
  entry of the kept set for the rule of the first file is also that for the rule of
  the second.
\<close>

definition nl_path :: string where
  "nl_path = ''d/f.yar'' @ [CHR 0x0A] @ ''rule A {x.yar''"

definition nl_files :: "(string \<times> string) list" where
  "nl_files = [(''d/f.yar'', ''rule A {x.yar'' @ [CHR 0x0A] @ ''rule B { condition: true }''),
               (nl_path, ''rule B { condition: true }'')]"









section \<open>The name of a rule\<close>

lemma splitlines_aux_first:
  "cur \<noteq> [] \<or> s \<noteq> [] \<Longrightarrow>
   \<exists>ls. splitlines_aux cur s = (rev cur @ takeWhile (\<lambda>c. \<not> is_linebreak c) s) # ls"
proof (induction s arbitrary: cur)
  case Nil
  then show ?case by simp
next
  case (Cons c cs)
  have cr: "is_linebreak (CHR 0x0D)" by (simp add: is_linebreak_def)
  show ?case
  proof (cases "c = CHR 0x0D")
    case True
    then show ?thesis using cr by (cases cs) auto
  next
    case False
    show ?thesis
    proof (cases "is_linebreak c")
      case True
      then show ?thesis using False by simp
    next
      case nl: False
      have "\<exists>ls. splitlines_aux (c # cur) cs =
              (rev (c # cur) @ takeWhile (\<lambda>c. \<not> is_linebreak c) cs) # ls"
        by (rule Cons.IH) simp
      then show ?thesis using False nl by simp
    qed
  qed
qed

lemma splitlines_first: "s \<noteq> [] \<Longrightarrow> index0 (splitlines s) = Inr (first_line s)"
  using splitlines_aux_first[of "[]" s] by (auto simp: splitlines_def index0_def first_line_def)

lemma split_aux_first: "\<exists>ls. split_aux sep cur s = (rev cur @ takeWhile (\<lambda>c. c \<noteq> sep) s) # ls"
  by (induction sep cur s rule: split_aux.induct) auto

lemma split_chr_first: "index0 (split_chr sep s) = Inr (takeWhile (\<lambda>c. c \<noteq> sep) s)"
  using split_aux_first[of sep "[]" s] by (auto simp: split_chr_def index0_def)

lemma partition_chr_fst: "fst (partition_chr sep s) = takeWhile (\<lambda>c. c \<noteq> sep) s"
proof (cases "dropWhile (\<lambda>c. c \<noteq> sep) s")
  case Nil
  then have "\<forall>x\<in>set s. x \<noteq> sep" by simp
  then have tw: "takeWhile (\<lambda>c. c \<noteq> sep) s = s"
    by (rule takeWhile_eq_all_conv[THEN iffD2])
  show ?thesis unfolding partition_chr_def Nil by (simp only: list.case fst_conv tw)
next
  case (Cons a list)
  then show ?thesis by (simp add: partition_chr_def)
qed

lemma py_in_single: "py_in [c] s = (c \<in> set s)"
  by (induction s) auto

lemma strip_stripped:
  assumes "stripped y"
  shows "strip y = y"
proof (cases "y = []")
  case True
  then show ?thesis by (simp add: strip_def)
next
  case False
  then have h: "\<not> is_space (hd y)" and l: "\<not> is_space (last y)"
    using assms by (auto simp: stripped_def)
  have 1: "dropWhile is_space y = y"
    using h by (simp add: dropWhile_eq_self_iff)
  have 2: "dropWhile is_space (rev y) = rev y"
    using l False by (simp add: dropWhile_eq_self_iff hd_rev)
  show ?thesis by (simp add: strip_def 1 2)
qed

lemma last_dropWhile: "dropWhile P xs \<noteq> [] \<Longrightarrow> last (dropWhile P xs) = last xs"
  by (induction xs) (auto split: if_splits)

lemma stripped_strip: "stripped (strip x)"
proof -
  let ?y = "dropWhile is_space x"
  let ?w = "dropWhile is_space (rev ?y)"
  show ?thesis
  proof (cases "?w = []")
    case True
    then show ?thesis by (simp add: stripped_def strip_def)
  next
    case False
    have h: "\<not> is_space (hd ?w)" using False by (simp add: hd_dropWhile)
    have "last ?w = last (rev ?y)" using False by (rule last_dropWhile)
    moreover have ne: "?y \<noteq> []"
    proof
      assume "?y = []"
      then have "?w = []" by (simp only: rev.simps dropWhile.simps)
      then show False using False by simp
    qed
    moreover have "\<not> is_space (hd ?y)" using ne by (simp add: hd_dropWhile)
    ultimately have l: "\<not> is_space (last ?w)"
      using ne by (simp add: last_rev)
    show ?thesis using False h l by (simp add: stripped_def strip_def hd_rev last_rev)
  qed
qed

lemma strip_strip: "strip (strip x) = strip x"
  by (rule strip_stripped[OF stripped_strip])

lemma strip_dropWhile: "strip (dropWhile is_space x) = strip x"
  by (simp add: strip_def)

lemma takeWhile_prefix_mem:
  "c \<in> set ys \<Longrightarrow> takeWhile (\<lambda>x. x \<noteq> c) (ys @ zs) = takeWhile (\<lambda>x. x \<noteq> c) ys"
  by (induction ys) auto

lemma before_dropWhile:
  "\<not> is_space c \<Longrightarrow>
   strip (takeWhile (\<lambda>x. x \<noteq> c) (dropWhile is_space y)) = strip (takeWhile (\<lambda>x. x \<noteq> c) y)"
proof (induction y)
  case Nil
  then show ?case by simp
next
  case (Cons a y)
  show ?case
  proof (cases "is_space a")
    case True
    then have "a \<noteq> c" using Cons.prems by auto
    then show ?thesis using True Cons by (simp add: strip_def)
  next
    case False
    then show ?thesis by simp
  qed
qed


lemma before_rstrip:
  assumes "c \<in> set (rev (dropWhile P (rev y)))"
  shows "takeWhile (\<lambda>x. x \<noteq> c) (rev (dropWhile P (rev y))) = takeWhile (\<lambda>x. x \<noteq> c) y"
proof -
  have "y = rev (dropWhile P (rev y)) @ rev (takeWhile P (rev y))"
    by (metis rev_append rev_rev_ident takeWhile_dropWhile_id)
  then show ?thesis using takeWhile_prefix_mem[OF assms, of "rev (takeWhile P (rev y))"] by simp
qed

lemma before_strip:
  assumes "c \<in> set (strip y)" and "\<not> is_space c"
  shows "strip (takeWhile (\<lambda>x. x \<noteq> c) (strip y)) = strip (takeWhile (\<lambda>x. x \<noteq> c) y)"
proof -
  have "takeWhile (\<lambda>x. x \<noteq> c) (strip y) = takeWhile (\<lambda>x. x \<noteq> c) (dropWhile is_space y)"
    using assms(1) unfolding strip_def by (rule before_rstrip)
  then show ?thesis using before_dropWhile[OF assms(2)] by simp
qed

lemma set_strip: "set (strip y) \<subseteq> set y"
  by (auto simp: strip_def dest!: set_dropWhileD)





section \<open>The shards of the threaded run\<close>

lemma concat_chunks_take:
  "concat (map (\<lambda>j. take k (drop (j * k) xs)) [0..<m]) = take (m * k) xs"
proof (induction m)
  case 0
  then show ?case by simp
next
  case (Suc m)
  have "take (Suc m * k) xs = take (m * k + k) xs"
    by (simp add: add.commute)
  also have "\<dots> = take (m * k) xs @ take k (drop (m * k) xs)"
    by (rule take_add)
  finally have t: "take (Suc m * k) xs = take (m * k) xs @ take k (drop (m * k) xs)" .
  have "concat (map (\<lambda>j. take k (drop (j * k) xs)) [0..<Suc m])
        = concat (map (\<lambda>j. take k (drop (j * k) xs)) [0..<m]) @ take k (drop (m * k) xs)"
    by simp
  then show ?case unfolding t Suc.IH by simp
qed

lemma ceil_div_mult_ge:
  fixes n k :: nat
  assumes "0 < k"
  shows "n \<le> (n + k - 1) div k * k"
proof -
  have "(n + k - 1) mod k < k" using assms by simp
  moreover have "(n + k - 1) div k * k + (n + k - 1) mod k = n + k - 1" by simp
  ultimately show ?thesis by linarith
qed

lemma ceil_div_pred_lt:
  fixes n k :: nat
  assumes "0 < k" "0 < n"
  shows "((n + k - 1) div k - 1) * k < n"
proof -
  have le: "(n + k - 1) div k * k \<le> n + k - 1" by simp
  have "k \<le> n + k - 1" using assms by linarith
  then have "0 < (n + k - 1) div k" using assms by (simp add: div_greater_zero_iff)
  then obtain q where q: "(n + k - 1) div k = Suc q"
    by (cases "(n + k - 1) div k") auto
  have "Suc q * k \<le> n + k - 1" using le unfolding q .
  then have "q * k + k \<le> n + k - 1" by simp
  then have "q * k < n" using assms by linarith
  then show ?thesis unfolding q by simp
qed

lemma concat_range_step:
  assumes "0 < k"
  shows "concat (map (\<lambda>i. take k (drop i xs)) (range_step (length xs) k)) = xs"
proof -
  have "concat (map (\<lambda>i. take k (drop i xs)) (range_step (length xs) k))
        = concat (map (\<lambda>j. take k (drop (j * k) xs)) [0..<(length xs + k - 1) div k])"
    by (simp add: range_step_def comp_def)
  also have "\<dots> = take ((length xs + k - 1) div k * k) xs"
    by (rule concat_chunks_take)
  also have "\<dots> = xs" using ceil_div_mult_ge[OF assms, of "length xs"] by simp
  finally show ?thesis .
qed

text \<open>
  Claim C5, as the code has it. For a list of files that is not empty, \<open>dedupe_threaded\<close>
  cuts the list into consecutive shards of \<open>each = len(files) // min(len(files), threads)\<close>
  files, in the order of the list: there are \<open>ceil(len(files) / each)\<close> shards, all of
  \<open>each\<close> files but the last, which holds the rest (between one and \<open>each\<close> files). So a
  remainder makes more shards than there are threads configured, and a list of at most as
  many files as threads gives every file a shard (and a thread) of its own.
\<close>

theorem dedupe_threaded_shards_chunks:
  assumes "0 < spin" and "yara_files \<noteq> []"
  shows "\<exists>shards each.
           each = length yara_files div (if length yara_files \<le> spin then length yara_files else spin)
         \<and> 0 < each
         \<and> dedupe_threaded_shards spin yara_files = Inr shards
         \<and> concat shards = yara_files
         \<and> length shards = (length yara_files + each - 1) div each
         \<and> (\<forall>i < length shards. shards ! i = take each (drop (i * each) yara_files))
         \<and> (\<forall>i < length shards - 1. length (shards ! i) = each)
         \<and> 0 < length (last shards) \<and> length (last shards) \<le> each
         \<and> (length yara_files \<le> spin \<longrightarrow> shards = map (\<lambda>f. [f]) yara_files)"
proof -
  let ?n = "length yara_files"
  let ?spin1 = "if ?n \<le> spin then ?n else spin"
  let ?each = "?n div ?spin1"
  let ?m = "(?n + ?each - 1) div ?each"
  let ?shards = "map (\<lambda>i. take ?each (drop i yara_files)) (range_step ?n ?each)"
  have n: "0 < ?n" using assms(2) by simp
  have spin1: "0 < ?spin1" "?spin1 \<le> ?n" using assms(1) n by auto
  have each: "0 < ?each" using spin1 by (simp add: div_greater_zero_iff)
  have d: "dedupe_threaded_shards spin yara_files = Inr ?shards"
    using spin1 each by (simp add: dedupe_threaded_shards_def Let_def)
  have c: "concat ?shards = yara_files" by (rule concat_range_step[OF each])
  have len: "length ?shards = ?m" by (simp add: range_step_def)
  have "?each \<le> ?n + ?each - 1" using n by linarith
  then have m: "0 < ?m" using each by (simp only: div_greater_zero_iff)
  have nth: "\<forall>i < length ?shards. ?shards ! i = take ?each (drop (i * ?each) yara_files)"
    by (simp add: range_step_def)
  have pred: "(?m - 1) * ?each < ?n" by (rule ceil_div_pred_lt[OF each n])
  have full: "\<forall>i < length ?shards - 1. length (?shards ! i) = ?each"
  proof (intro allI impI)
    fix i assume i: "i < length ?shards - 1"
    then have "Suc i \<le> ?m - 1" using len by simp
    then have "Suc i * ?each \<le> (?m - 1) * ?each" by (rule mult_le_mono1)
    then have "i * ?each + ?each \<le> ?n" using pred by simp
    moreover have "?shards ! i = take ?each (drop (i * ?each) yara_files)"
      using nth i by simp
    ultimately show "length (?shards ! i) = ?each" by simp
  qed
  have ne: "?shards \<noteq> []" using len m by auto
  have lastv: "last ?shards = take ?each (drop ((?m - 1) * ?each) yara_files)"
    using nth len m ne by (simp add: last_conv_nth)
  have last1: "0 < length (last ?shards)" using lastv pred each by simp
  have last2: "length (last ?shards) \<le> ?each" using lastv by simp
  have single: "?n \<le> spin \<longrightarrow> ?shards = map (\<lambda>f. [f]) yara_files"
  proof
    assume "?n \<le> spin"
    then have e1: "?each = 1" using n by simp
    have "map (\<lambda>i. take 1 (drop i yara_files)) [0..<?n] = map (\<lambda>f. [f]) yara_files"
      by (rule nth_equalityI) (auto simp: take_Suc_conv_app_nth hd_drop_conv_nth take_Suc)
    then show "?shards = map (\<lambda>f. [f]) yara_files"
      using e1 by (simp add: range_step_def)
  qed
  show ?thesis
    using each d c len nth full last1 last2 single by blast
qed

theorem dedupe_threaded_shards_chunks_witness:
  "0 < spin_threads \<and> eleven \<noteq> []
   \<and> (\<exists>shards. dedupe_threaded_shards spin_threads eleven = Inr shards
         \<and> concat shards = eleven \<and> length shards = 11)"
proof -
  have a: "0 < spin_threads" by (simp add: spin_threads_def)
  have b: "eleven \<noteq> []" by (simp add: eleven_def)
  obtain shards each where
    e: "each = length eleven div (if length eleven \<le> spin_threads then length eleven else spin_threads)"
    and d: "dedupe_threaded_shards spin_threads eleven = Inr shards"
    and c: "concat shards = eleven"
    and l: "length shards = (length eleven + each - 1) div each"
    using dedupe_threaded_shards_chunks[OF a b] by blast
  have "each = 1" unfolding e by (simp add: spin_threads_def eleven_def)
  then have "length shards = 11" using l by (simp add: eleven_def)
  then show ?thesis using a b d c by blast
qed

text \<open>
  Claim C5 as stated fails: eleven files and ten threads give eleven shards of one file,
  not ten shards with the remainder in the last ones; and two files give two threads, not a
  sequential pass.
\<close>

theorem shards_counterexample:
  "spin_threads = 10 \<and> length eleven = 11
   \<and> dedupe_threaded_shards spin_threads eleven = Inr (map (\<lambda>f. [f]) eleven)
   \<and> length (map (\<lambda>f. [f]) eleven) = 11
   \<and> dedupe_threaded spin_threads [''a.yar'', ''b.yar'']
      = Inr [thread_start [''a.yar''], thread_start [''b.yar'']]"
  by code_simp

section \<open>Files without content\<close>

lemma read_content_first_decoded:
  "open_r s yf = Inr bs \<Longrightarrow>
   \<exists>s1. read_content env s yf es = Inr (first_decoded env bs es, s1) \<and> same_but_stdout s s1"
proof (induction es arbitrary: s)
  case Nil
  then show ?case by (simp add: same_but_stdout_def)
next
  case (Cons e es)
  show ?case
  proof (cases "decode env e bs")
    case None
    let ?s = "s\<lparr>stdout := stdout s @
                [MsgReadError yf e,
                 if index_of encodings e + 1 < length encodings
                 then MsgTryingCodec (encodings ! (index_of encodings e + 1)) yf
                 else MsgNoCodec yf]\<rparr>"
    have "open_r ?s yf = open_r s yf" by (simp add: open_r_def isdir_def)
    then have "open_r ?s yf = Inr bs" using Cons.prems by simp
    from Cons.IH[OF this] obtain s1 where
      "read_content env ?s yf es = Inr (first_decoded env bs es, s1)" "same_but_stdout ?s s1"
      by blast
    then show ?thesis using None Cons.prems
      by (auto simp: same_but_stdout_def)
  next
    case (Some c)
    then show ?thesis using Cons.prems by (simp add: same_but_stdout_def)
  qed
qed

lemma same_but_stdout_trans:
  "same_but_stdout a b \<Longrightarrow> same_but_stdout b c \<Longrightarrow> same_but_stdout a c"
  unfolding same_but_stdout_def by (metis state.surjective state.update_convs(9))

text \<open>
  Claim C10. For a file that can be opened, when the first encoding that decodes it gives
  the empty text, or when no encoding decodes it, \<open>extract\<close> returns
  \<open>(None, None, None)\<close>, and the body of the loop of \<open>dedupe\<close> leaves the counters, the sets
  of names, rules and imports, and the file system as they were: the state changes at most
  in the messages written for the encodings that failed.
\<close>

theorem empty_content_is_skipped:
  assumes "open_r s yf = Inr bs"
    and "first_decoded env bs encodings = Some [] \<or> first_decoded env bs encodings = None"
  shows "\<exists>s1 s2. extract_file env s yf = Inr ((None, None, None), s1)
           \<and> process_file env out s yf = Inr s2
           \<and> same_but_stdout s s2"
proof -
  from read_content_first_decoded[OF assms(1), of env encodings] obtain s1 where
    r: "read_content env s yf encodings = Inr (first_decoded env bs encodings, s1)"
    and sb: "same_but_stdout s s1" by blast
  have e: "extract_file env s yf = Inr ((None, None, None), s1)"
    using assms(2) r by (auto simp: extract_file_def)
  have "same_but_stdout s1 (skip_file env s1 yf)"
    by (simp add: skip_file_def same_but_stdout_def)
  then have "same_but_stdout s (skip_file env s1 yf)"
    using sb same_but_stdout_trans by blast
  moreover have "process_file env out s yf = Inr (skip_file env s1 yf)"
    using e by (simp add: process_file_def falsy_def)
  ultimately show ?thesis using e by blast
qed

theorem empty_content_is_skipped_witness:
  "open_r (state0 [(''a/x.yar'', [])]) ''a/x.yar'' = Inr []
   \<and> first_decoded env0 [] encodings = Some []
   \<and> (\<exists>s2. process_file env0 ''out'' (state0 [(''a/x.yar'', [])]) ''a/x.yar'' = Inr s2
          \<and> same_but_stdout (state0 [(''a/x.yar'', [])]) s2)"
proof -
  have a: "open_r (state0 [(''a/x.yar'', [])]) ''a/x.yar'' = Inr []" by code_simp
  have b: "first_decoded env0 [] encodings = Some []" by code_simp
  show ?thesis
    using a b empty_content_is_skipped[OF a disjI1[OF b], of "''out''"] by blast
qed


section \<open>The index\<close>

lemma py_in_not_longer: "py_in x s \<Longrightarrow> length x \<le> length s"
  by (induction s) (auto dest: prefix_length_le)

lemma merged_name_not_left_out: "\<not> py_in ''all_in_one_rules.yar'' ''all_in_one.yar''"
  using py_in_not_longer[of "''all_in_one_rules.yar''" "''all_in_one.yar''"] by auto

lemma merged_name_is_yara: "endswith ''all_in_one.yar'' file_types"
  by (simp add: endswith_def file_types_def)

lemma all_in_one_is_indexed:
  assumes "(root, ds, fs) \<in> set walk" and "''all_in_one.yar'' \<in> set fs"
  shows "path_join root ''all_in_one.yar'' \<in> set (index_yara_files walk)"
proof -
  have "\<exists>x \<in> set walk. path_join root ''all_in_one.yar'' \<in>
          set (case x of (root, ds, fs) \<Rightarrow> map (path_join root)
             (filter (\<lambda>f. \<not> py_in ''all_in_one_rules.yar'' f \<and> endswith f file_types) fs))"
    using assms merged_name_not_left_out merged_name_is_yara
    by (intro bexI[of _ "(root, ds, fs)"]) auto
  then show ?thesis
    unfolding index_yara_files_def by simp
qed

text \<open>
  Claim C7 on the code. The merged file is written as \<open>all_in_one.yar\<close>, and the walk that
  makes the index leaves out the names that contain \<open>all_in_one_rules.yar\<close>: the index of a
  run that kept one rule of \<open>a/x.yar\<close> has an \<open>include\<close> line for the merged file too.
\<close>

theorem index_includes_merged_file:
  "index_files [(''out/deduped_rules'', [''a''], [''all_in_one.yar'']),
                (''out/deduped_rules/a'', [], [''x.yar''])]
   = ''include '' @ [CHR 0x22] @ ''out/deduped_rules/all_in_one.yar'' @ [CHR 0x22, CHR 0x0A]
     @ ''include '' @ [CHR 0x22] @ ''out/deduped_rules/a/x.yar'' @ [CHR 0x22]"
  by (simp add: index_files_def index_yara_files_def include_line_def path_join_def
        endswith_def file_types_def)

section \<open>Rules inside comments\<close>

lemma py_in_iff: "py_in x s \<longleftrightarrow> (\<exists>p q. s = p @ x @ q)"
proof (induction s)
  case Nil
  then show ?case by auto
next
  case (Cons c cs)
  show ?case
  proof
    assume "py_in x (c # cs)"
    then consider "prefix x (c # cs)" | "py_in x cs" by auto
    then show "\<exists>p q. c # cs = p @ x @ q"
    proof cases
      case 1
      then obtain q where "c # cs = x @ q" by (auto simp: prefix_def)
      then have "c # cs = [] @ x @ q" by simp
      then show ?thesis by blast
    next
      case 2
      then obtain p q where "cs = p @ x @ q" using Cons.IH by blast
      then have "c # cs = (c # p) @ x @ q" by simp
      then show ?thesis by blast
    qed
  next
    assume "\<exists>p q. c # cs = p @ x @ q"
    then obtain p q where pq: "c # cs = p @ x @ q" by blast
    show "py_in x (c # cs)"
    proof (cases p)
      case Nil
      then have "prefix x (c # cs)" using pq by (simp add: prefix_def)
      then show ?thesis by simp
    next
      case (Cons a p')
      then have "cs = p' @ x @ q" using pq by simp
      then have "py_in x cs" using Cons.IH by blast
      then show ?thesis by simp
    qed
  qed
qed

lemma py_in_concat:
  assumes "c \<in> set cs" and "py_in x c"
  shows "py_in x (concat cs)"
proof -
  obtain p q where c: "c = p @ x @ q" using assms(2) py_in_iff by blast
  obtain ys zs where "cs = ys @ c # zs" using assms(1) by (auto simp: in_set_conv_decomp)
  then have "concat cs = (concat ys @ p) @ x @ (q @ concat zs)" using c by simp
  then show ?thesis using py_in_iff by blast
qed

lemma extract_content_matched:
  assumes "rules_re_findall content \<noteq> []"
  shows "extract_content content =
           (import_re_findall content,
            (if comments_re_findall content = [] then map clean_rule (rules_re_findall content)
             else filter (\<lambda>x. \<not> py_in x (concat (comment_blocks content)))
                    (map clean_rule (rules_re_findall content))),
            comment_blocks content)"
  using assms by (simp add: extract_content_def comment_blocks_def Let_def)

lemma commented_rule_not_live:
  assumes "x \<in> set (map clean_rule (rules_re_findall content))"
    and "c \<in> set (comment_blocks content)" and "py_in x c"
  shows "x \<notin> set (fst (snd (extract_content content)))"
proof -
  have m: "rules_re_findall content \<noteq> []" using assms(1) by auto
  have "comment_blocks content \<noteq> []" using assms(2) by auto
  then have n: "comments_re_findall content \<noteq> []" by (auto simp: comment_blocks_def)
  have "py_in x (concat (comment_blocks content))" using assms(2,3) by (rule py_in_concat)
  then show ?thesis using n by (simp add: extract_content_matched[OF m])
qed

lemma extract_file_content:
  assumes "open_r s yf = Inr bs" and "first_decoded env bs encodings = Some content"
    and "content \<noteq> []"
  shows "\<exists>s1. extract_file env s yf
                 = Inr ((Some (fst (extract_content content)),
                         Some (fst (snd (extract_content content))),
                         Some (snd (snd (extract_content content)))), s1)
              \<and> same_but_stdout s s1"
proof -
  from read_content_first_decoded[OF assms(1), of env encodings] obtain s1 where
    r: "read_content env s yf encodings = Inr (Some content, s1)"
    and sb: "same_but_stdout s s1" using assms(2) by auto
  let ?s2 = "if verbose env
             then s1\<lparr>stdout := stdout s1 @ [MsgRules (length (rules_re_findall content)) yf]\<rparr>
             else s1"
  have "same_but_stdout s1 ?s2" by (simp add: same_but_stdout_def)
  then have "same_but_stdout s ?s2" using sb same_but_stdout_trans by blast
  moreover have "extract_file env s yf
                 = Inr ((Some (fst (extract_content content)),
                         Some (fst (snd (extract_content content))),
                         Some (snd (snd (extract_content content)))), ?s2)"
    using r assms(3) by (simp add: extract_file_def Let_def split: prod.splits)
  ultimately show ?thesis by blast
qed

lemma mkdir_frame:
  "mkdir s p = Inr s' \<Longrightarrow> s' = s\<lparr>dirs := insert (normpath p) (dirs s)\<rparr>"
  by (auto simp: mkdir_def split: if_splits)

lemma write_file_frame:
  assumes "write_file env s p c = Inr s'"
  shows "all_imports s' = all_imports s \<and> all_yara_rules s' = all_yara_rules s
         \<and> rule_names s' = rule_names s \<and> total_duplicate_rules s' = total_duplicate_rules s
         \<and> total_rules s' = total_rules s \<and> rule_dict s' = rule_dict s
         \<and> dirs s' = dirs s \<and> lock_held s' = lock_held s
         \<and> dom (files s') = insert (normpath p) (dom (files s))"
  using assms
  by (auto simp: write_file_def close_file_def open_w_def Let_def
        split: sum.splits option.splits if_splits)

lemma not_isl_Inr: "\<not> isl x \<Longrightarrow> \<exists>y. x = Inr y"
  by (cases x) auto

lemma process_commented_frame:
  assumes "process_commented env out s yf imports commented = Inr s'"
  shows "all_imports s' = all_imports s \<and> all_yara_rules s' = all_yara_rules s
         \<and> rule_names s' = rule_names s \<and> total_duplicate_rules s' = total_duplicate_rules s
         \<and> total_rules s' = total_rules s \<and> rule_dict s' = rule_dict s
         \<and> dom (files s') = insert (normpath (path_join (new_yf_commented_rule_dir out yf)
                                                  (basename yf))) (dom (files s))"
proof (cases "exists s (new_yf_commented_rule_dir out yf)")
  case True
  then have "write_file env s (path_join (new_yf_commented_rule_dir out yf) (basename yf))
               (commented_contents imports commented) = Inr s'"
    using assms by (simp add: process_commented_def)
  then show ?thesis using write_file_frame by blast
next
  case False
  then obtain s1 where m: "mkdir s (new_yf_commented_rule_dir out yf) = Inr s1"
    and w: "write_file env s1 (path_join (new_yf_commented_rule_dir out yf) (basename yf))
               (commented_contents imports commented) = Inr s'"
    using assms by (auto simp: process_commented_def split: sum.splits)
  have "s1 = s\<lparr>dirs := insert (normpath (new_yf_commented_rule_dir out yf)) (dirs s)\<rparr>"
    using m by (rule mkdir_frame)
  then show ?thesis using write_file_frame[OF w] by simp
qed

lemma process_file_extracted:
  assumes "extract_file env s yf = Inr ((Some i, Some r, Some c), s1)"
    and "\<not> (i = [] \<and> r = [] \<and> c = [])"
  shows "process_file env out s yf =
           (case (if c \<noteq> [] then process_commented env out
                                      (fst (if i \<noteq> [] then merge_imports s1 i else (s1, [])))
                                      yf i c
                  else Inr (fst (if i \<noteq> [] then merge_imports s1 i else (s1, [])))) of
              Inl e \<Rightarrow> Inl e
            | Inr s2 \<Rightarrow>
                if r \<noteq> []
                then process_rules env out s2 yf r
                       (snd (if i \<noteq> [] then merge_imports s1 i else (s1, [])))
                else Inr s2)"
  using assms
  by (auto simp: process_file_def falsy_def the_list_def Let_def cong: sum.case_cong)

text \<open>
  What the filter of \<open>extract\<close> removes. A matched rule block whose cleaned text occurs in
  one of the comment blocks that \<open>extract\<close> keeps is not among the rules that \<open>extract\<close>
  returns. So for a file that is read with a content in which the pattern of the rules
  matches and every matched block, cleaned, lies in one comment block, the body of the loop
  of \<open>dedupe\<close>, when it returns, has left the kept rules, the names and the counters as they
  were, and has written one file: the one of the tree of commented rules.
\<close>

lemma commented_rules_are_discarded:
  assumes "open_r s yf = Inr bs" and "first_decoded env bs encodings = Some content"
    and "content \<noteq> []"
  shows "(\<forall>x \<in> set (map clean_rule (rules_re_findall content)).
            (\<exists>c \<in> set (comment_blocks content). py_in x c)
            \<longrightarrow> x \<notin> set (fst (snd (extract_content content))))
       \<and> (rules_re_findall content \<noteq> []
            \<and> (\<forall>x \<in> set (map clean_rule (rules_re_findall content)).
                   \<exists>c \<in> set (comment_blocks content). py_in x c)
            \<and> process_file env out s yf = Inr s'
          \<longrightarrow> all_yara_rules s' = all_yara_rules s \<and> rule_names s' = rule_names s
              \<and> total_rules s' = total_rules s
              \<and> total_duplicate_rules s' = total_duplicate_rules s
              \<and> dom (files s')
                  = insert (normpath (path_join (new_yf_commented_rule_dir out yf) (basename yf)))
                      (dom (files s)))"
proof (rule conjI)
  show "\<forall>x \<in> set (map clean_rule (rules_re_findall content)).
            (\<exists>c \<in> set (comment_blocks content). py_in x c)
            \<longrightarrow> x \<notin> set (fst (snd (extract_content content)))"
    using commented_rule_not_live by blast
next
  show "rules_re_findall content \<noteq> []
            \<and> (\<forall>x \<in> set (map clean_rule (rules_re_findall content)).
                   \<exists>c \<in> set (comment_blocks content). py_in x c)
            \<and> process_file env out s yf = Inr s'
          \<longrightarrow> all_yara_rules s' = all_yara_rules s \<and> rule_names s' = rule_names s
              \<and> total_rules s' = total_rules s
              \<and> total_duplicate_rules s' = total_duplicate_rules s
              \<and> dom (files s')
                  = insert (normpath (path_join (new_yf_commented_rule_dir out yf) (basename yf)))
                      (dom (files s))"
  proof (rule impI)
  assume h: "rules_re_findall content \<noteq> []
            \<and> (\<forall>x \<in> set (map clean_rule (rules_re_findall content)).
                   \<exists>c \<in> set (comment_blocks content). py_in x c)
            \<and> process_file env out s yf = Inr s'"
  let ?i = "fst (extract_content content)"
  let ?r = "fst (snd (extract_content content))"
  let ?c = "snd (snd (extract_content content))"
  have m: "rules_re_findall content \<noteq> []" using h by simp
  have live: "?r = []"
  proof (rule ccontr)
    assume "?r \<noteq> []"
    then obtain x where x: "x \<in> set ?r" by (cases ?r) auto
    then have "x \<in> set (map clean_rule (rules_re_findall content))"
      by (auto simp: extract_content_matched[OF m] split: if_splits)
    then show False using h x commented_rule_not_live by blast
  qed
  obtain x where "x \<in> set (map clean_rule (rules_re_findall content))"
    using m by (cases "rules_re_findall content") auto
  then have "comment_blocks content \<noteq> []" using h by auto
  then have c: "?c \<noteq> []" by (simp add: extract_content_matched[OF m])
  obtain s1 where e: "extract_file env s yf = Inr ((Some ?i, Some ?r, Some ?c), s1)"
    and sb: "same_but_stdout s s1"
    using extract_file_content[OF assms] by blast
  let ?s2 = "fst (if ?i \<noteq> [] then merge_imports s1 ?i else (s1, []))"
  have ne: "\<not> (?i = [] \<and> ?r = [] \<and> ?c = [])" using c by simp
  have "process_file env out s yf = Inr s'" using h by simp
  then have p: "process_commented env out ?s2 yf ?i ?c = Inr s'"
    using c live unfolding process_file_extracted[OF e ne, of out]
    by (auto split: sum.splits if_splits)
  have g: "all_yara_rules ?s2 = all_yara_rules s \<and> rule_names ?s2 = rule_names s
           \<and> total_rules ?s2 = total_rules s
           \<and> total_duplicate_rules ?s2 = total_duplicate_rules s \<and> files ?s2 = files s"
  proof -
    have "all_yara_rules s1 = all_yara_rules s \<and> rule_names s1 = rule_names s
           \<and> total_rules s1 = total_rules s
           \<and> total_duplicate_rules s1 = total_duplicate_rules s \<and> files s1 = files s"
      using sb unfolding same_but_stdout_def
      by (metis state.select_convs(2,3,4,5,8) state.surjective state.update_convs(9))
    then show ?thesis by (simp add: merge_imports_def)
  qed
  show "all_yara_rules s' = all_yara_rules s \<and> rule_names s' = rule_names s
        \<and> total_rules s' = total_rules s
        \<and> total_duplicate_rules s' = total_duplicate_rules s
        \<and> dom (files s')
            = insert (normpath (path_join (new_yf_commented_rule_dir out yf) (basename yf)))
                (dom (files s))"
    using process_commented_frame[OF p] g by simp
  qed
qed


lemma commented_rules_are_discarded_witness:
  "open_r (state0 [(''a/x.yar'', commented_only)]) ''a/x.yar'' = Inr commented_only
   \<and> first_decoded env0 commented_only encodings = Some commented_only
   \<and> commented_only \<noteq> []
   \<and> rules_re_findall commented_only \<noteq> []
   \<and> list_all (\<lambda>x. list_ex (py_in x) (comment_blocks commented_only))
        (map clean_rule (rules_re_findall commented_only))
   \<and> (\<exists>s'. process_file env0 ''out'' (state0 [(''a/x.yar'', commented_only)]) ''a/x.yar'' = Inr s'
          \<and> all_yara_rules s' = {} \<and> rule_names s' = {} \<and> total_rules s' = 0
          \<and> dom (files s') = {''out/commented_rules/a/x.yar'', ''a/x.yar''})"
proof -
  let ?S = "state0 [(''a/x.yar'', commented_only)]"
  have a: "open_r ?S ''a/x.yar'' = Inr commented_only" by code_simp
  have b: "first_decoded env0 commented_only encodings = Some commented_only" by code_simp
  have c: "commented_only \<noteq> []" by code_simp
  have d: "rules_re_findall commented_only \<noteq> []" by code_simp
  have e: "list_all (\<lambda>x. list_ex (py_in x) (comment_blocks commented_only))
             (map clean_rule (rules_re_findall commented_only))" by code_simp
  then have e': "\<forall>x \<in> set (map clean_rule (rules_re_findall commented_only)).
                  \<exists>c \<in> set (comment_blocks commented_only). py_in x c"
    unfolding list_all_iff list_ex_iff .
  have "\<not> isl (process_file env0 ''out'' ?S ''a/x.yar'')" by code_simp
  then obtain s' where p: "process_file env0 ''out'' ?S ''a/x.yar'' = Inr s'"
    using not_isl_Inr by blast
  have n: "normpath (path_join (new_yf_commented_rule_dir ''out'' ''a/x.yar'') (basename ''a/x.yar''))
           = ''out/commented_rules/a/x.yar''" by code_simp
  have g1: "all_yara_rules ?S = {}" and g2: "rule_names ?S = {}" and g3: "total_rules ?S = 0"
    and g4: "dom (files ?S) = {''a/x.yar''}"
    by (simp_all add: state0_def)
  have imp: "rules_re_findall commented_only \<noteq> []
            \<and> (\<forall>x \<in> set (map clean_rule (rules_re_findall commented_only)).
                   \<exists>c \<in> set (comment_blocks commented_only). py_in x c)
            \<and> process_file env0 ''out'' ?S ''a/x.yar'' = Inr s'
          \<longrightarrow> all_yara_rules s' = all_yara_rules ?S \<and> rule_names s' = rule_names ?S
              \<and> total_rules s' = total_rules ?S
              \<and> total_duplicate_rules s' = total_duplicate_rules ?S
              \<and> dom (files s')
                  = insert (normpath (path_join (new_yf_commented_rule_dir ''out'' ''a/x.yar'') (basename ''a/x.yar'')))
                      (dom (files ?S))"
    by (rule conjunct2[OF commented_rules_are_discarded[OF a b c, of "''out''" s']])
  have r: "all_yara_rules s' = all_yara_rules ?S \<and> rule_names s' = rule_names ?S
              \<and> total_rules s' = total_rules ?S
              \<and> total_duplicate_rules s' = total_duplicate_rules ?S
              \<and> dom (files s')
                  = insert (normpath (path_join (new_yf_commented_rule_dir ''out'' ''a/x.yar'') (basename ''a/x.yar'')))
                      (dom (files ?S))"
    by (rule mp[OF imp]) (intro conjI d e' p)
  have f: "all_yara_rules s' = {} \<and> rule_names s' = {} \<and> total_rules s' = 0
          \<and> dom (files s') = {''out/commented_rules/a/x.yar'', ''a/x.yar''}"
    using r by (simp only: n g1 g2 g3 g4)
  have "\<exists>s'. process_file env0 ''out'' ?S ''a/x.yar'' = Inr s'
          \<and> all_yara_rules s' = {} \<and> rule_names s' = {} \<and> total_rules s' = 0
          \<and> dom (files s') = {''out/commented_rules/a/x.yar'', ''a/x.yar''}"
    by (rule exI[of _ s'], rule conjI[OF p f])
  then show ?thesis
    by (intro conjI a b c d e)
qed

text \<open>
  Claim C4 on the code. A rule that is commented out with \<open>//\<close> at the start of each of its
  three lines: the pattern of the rules matches the whole text, the pattern of the comments
  matches each line by itself, and \<open>extract\<close> looks for the cleaned block in the three
  comments joined without the line feeds between them, where it is not. The block stays
  among the rules that \<open>extract\<close> returns, and the body of the loop of \<open>dedupe\<close> registers
  it under the name \<open>rule Foo\<close>, adds its entry to the kept set, counts it, and writes it to
  the tree of deduped rules besides the file of the tree of commented rules.
\<close>

theorem line_commented_rule_is_kept:
  "rules_re_findall line_commented = [line_commented]
   \<and> comment_blocks line_commented = [''// rule Foo {'', ''// condition: true'', ''// }'']
   \<and> map clean_rule (rules_re_findall line_commented) = [line_commented_rule]
   \<and> \<not> py_in line_commented_rule (concat (comment_blocks line_commented))
   \<and> extract_content line_commented
       = ([], [line_commented_rule], [''// rule Foo {'', ''// condition: true'', ''// }''])
   \<and> \<not> isl (process_file env0 ''out'' (state0 [(''a/x.yar'', line_commented)]) ''a/x.yar'')
   \<and> rule_names (projr (process_file env0 ''out'' (state0 [(''a/x.yar'', line_commented)]) ''a/x.yar''))
       = {''rule Foo''}
   \<and> all_yara_rules
         (projr (process_file env0 ''out'' (state0 [(''a/x.yar'', line_commented)]) ''a/x.yar''))
       = {provenance ''a/x.yar'' line_commented_rule}
   \<and> total_rules
         (projr (process_file env0 ''out'' (state0 [(''a/x.yar'', line_commented)]) ''a/x.yar'')) = 1
   \<and> files (projr (process_file env0 ''out'' (state0 [(''a/x.yar'', line_commented)]) ''a/x.yar''))
         ''out/deduped_rules/a/x.yar''
       = Some (file_header env0 @ line_commented_rule @ [CHR 0x0A, CHR 0x0A])
   \<and> files (projr (process_file env0 ''out'' (state0 [(''a/x.yar'', line_commented)]) ''a/x.yar''))
         ''out/commented_rules/a/x.yar''
       \<noteq> None"
  by code_simp

section \<open>Errors of the file system\<close>



lemma close_file_cases:
  "close_file env s p =
     (if flush env p (case files s (normpath p) of None \<Rightarrow> [] | Some bs \<Rightarrow> bs)
      then Inr s else Inl (OSError p))"
  by (simp add: close_file_def)





section \<open>The kept rules\<close>

subsection \<open>What a step changes\<close>

lemma read_content_stdout:
  "read_content env s yf es = Inr (c, s1) \<Longrightarrow> same_but_stdout s s1"
proof (induction es arbitrary: s)
  case Nil
  then show ?case by (simp add: same_but_stdout_def)
next
  case (Cons e es)
  from Cons.prems obtain bs where o: "open_r s yf = Inr bs"
    by (auto split: sum.splits)
  show ?case
  proof (cases "decode env e bs")
    case None
    let ?s = "s\<lparr>stdout := stdout s @
                [MsgReadError yf e,
                 if index_of encodings e + 1 < length encodings
                 then MsgTryingCodec (encodings ! (index_of encodings e + 1)) yf
                 else MsgNoCodec yf]\<rparr>"
    have "read_content env ?s yf es = Inr (c, s1)" using Cons.prems o None by simp
    then have "same_but_stdout ?s s1" by (rule Cons.IH)
    moreover have "same_but_stdout s ?s" by (simp add: same_but_stdout_def)
    ultimately show ?thesis using same_but_stdout_trans by blast
  next
    case (Some a)
    then show ?thesis using Cons.prems o by (simp add: same_but_stdout_def)
  qed
qed

lemma extract_file_stdout:
  assumes "extract_file env s yf = Inr (ex, s1)"
  shows "same_but_stdout s s1"
proof -
  obtain c s0 where r: "read_content env s yf encodings = Inr (c, s0)"
    using assms by (auto simp: extract_file_def split: sum.splits)
  have a: "same_but_stdout s s0" using r by (rule read_content_stdout)
  have "s1 = s0 \<or> s1 = s0\<lparr>stdout := stdout s0 @ [MsgRules (length (rules_re_findall (the c))) yf]\<rparr>"
    using assms r
    by (auto simp: extract_file_def Let_def split: option.splits if_splits prod.splits)
  then have "same_but_stdout s0 s1" by (auto simp: same_but_stdout_def)
  then show ?thesis using a same_but_stdout_trans by blast
qed

lemma same_but_stdout_fields:
  assumes "same_but_stdout s s'"
  shows "all_imports s' = all_imports s" "all_yara_rules s' = all_yara_rules s"
    "rule_names s' = rule_names s" "total_duplicate_rules s' = total_duplicate_rules s"
    "total_rules s' = total_rules s" "rule_dict s' = rule_dict s" "dirs s' = dirs s"
    "files s' = files s" "lock_held s' = lock_held s"
proof -
  have e: "s' = s\<lparr>stdout := stdout s'\<rparr>" using assms by (simp add: same_but_stdout_def)
  show "all_imports s' = all_imports s" by (subst e) simp
  show "all_yara_rules s' = all_yara_rules s" by (subst e) simp
  show "rule_names s' = rule_names s" by (subst e) simp
  show "total_duplicate_rules s' = total_duplicate_rules s" by (subst e) simp
  show "total_rules s' = total_rules s" by (subst e) simp
  show "rule_dict s' = rule_dict s" by (subst e) simp
  show "dirs s' = dirs s" by (subst e) simp
  show "files s' = files s" by (subst e) simp
  show "lock_held s' = lock_held s" by (subst e) simp
qed

lemma skip_file_stdout: "same_but_stdout s (skip_file env s yf)"
  by (simp add: skip_file_def same_but_stdout_def)

lemma kept_same_stdout: "same_but_stdout s s' \<Longrightarrow> kept_same s s'"
  by (simp add: kept_same_def same_but_stdout_fields)

lemma kept_same_trans: "kept_same a b \<Longrightarrow> kept_same b c \<Longrightarrow> kept_same a c"
  by (simp add: kept_same_def)

lemma step_loop_kept: "step_loop env l s = (t', s') \<Longrightarrow> kept_same s s'"
proof (cases "l_files l")
  case Nil
  assume "step_loop env l s = (t', s')"
  then show ?thesis using Nil by (simp add: step_loop_def kept_same_def)
next
  case (Cons f fs)
  assume a: "step_loop env l s = (t', s')"
  show ?thesis
  proof (cases "extract_file env s f")
    case (Inl e)
    then show ?thesis using a Cons by (simp add: step_loop_def kept_same_def)
  next
    case (Inr p)
    obtain ex s1 where p: "p = (ex, s1)" by (cases p)
    have k1: "kept_same s s1"
      using extract_file_stdout Inr p kept_same_stdout by blast
    have k2: "kept_same s1 (skip_file env s1 f)"
      using skip_file_stdout kept_same_stdout by blast
    have "s' = s1 \<or> s' = skip_file env s1 f"
      using a Cons Inr p by (auto simp: step_loop_def split: if_splits)
    then show ?thesis using k1 k2 kept_same_trans by blast
  qed
qed

lemma write_file_kept: "write_file env s p c = Inr s' \<Longrightarrow> kept_same s s'"
  using write_file_frame by (simp add: kept_same_def)

lemma mkdir_kept: "mkdir s p = Inr s' \<Longrightarrow> kept_same s s'"
  by (auto simp: kept_same_def dest: mkdir_frame)

lemma register_names:
  assumes "register yf r (s, b) = Inr sb" and "rulename r = Inr n"
  shows "rule_names (fst sb) = insert n (rule_names s)
         \<and> all_yara_rules (fst sb)
            = all_yara_rules s \<union> entry ` set (firsts_from (rule_names s) [(n, yf, r)])
         \<and> total_duplicate_rules (fst sb)
            = total_duplicate_rules s + (if n \<in> rule_names s then 1 else 0)
         \<and> total_rules (fst sb) = total_rules s \<and> lock_held (fst sb) = lock_held s"
  using assms by (auto simp: register_def Let_def entry_def split: if_splits)

lemma register_succeeds: "rulename r = Inr n \<Longrightarrow> \<exists>sb'. register yf r sb = Inr sb'"
proof -
  assume "rulename r = Inr n"
  then have "\<not> isl (register yf r sb)" by (simp add: register_def Let_def)
  then show ?thesis by (rule not_isl_Inr)
qed

lemma register_fails: "rulename r = Inl e \<Longrightarrow> register yf r sb = Inl e"
  by (simp add: register_def)

lemma thread_step_names:
  assumes "thread_step env out t s = (t', s')"
  shows "rule_names s' = rule_names s \<union> fst ` set (reg_event t)
         \<and> all_yara_rules s'
            = all_yara_rules s \<union> entry ` set (firsts_from (rule_names s) (reg_event t))"
proof -
  obtain pc l where t: "t = (pc, l)" by (cases t)
  have same: "reg_event t = [] \<Longrightarrow> kept_same s s' \<Longrightarrow> ?thesis"
    by (simp add: kept_same_def)
  show ?thesis
  proof (cases pc)
    case AtLoop
    then have "kept_same s s'" using assms t step_loop_kept by simp
    then show ?thesis using same AtLoop t by (simp add: reg_event_def)
  next
    case AtImports
    then have "kept_same s s'" using assms t
      by (auto simp: kept_same_def merge_imports_def split: if_splits)
    then show ?thesis using same AtImports t by (simp add: reg_event_def)
  next
    case AtCommented
    then have "kept_same s s'" using assms t
      by (auto simp: kept_same_def split: if_splits)
    then show ?thesis using same AtCommented t by (simp add: reg_event_def)
  next
    case AtMkdir
    then have "kept_same s s'" using assms t mkdir_kept
      by (auto simp: kept_same_def split: sum.splits)
    then show ?thesis using same AtMkdir t by (simp add: reg_event_def)
  next
    case AtWriteCommented
    then have "kept_same s s'" using assms t write_file_kept
      by (auto simp: kept_same_def split: sum.splits)
    then show ?thesis using same AtWriteCommented t by (simp add: reg_event_def)
  next
    case AtRules
    then have "kept_same s s'" using assms t mkdir_kept
      by (auto simp: kept_same_def rules_dir_def count_rules_def split: sum.splits if_splits)
    then show ?thesis using same AtRules t by (simp add: reg_event_def)
  next
    case (Dead e)
    then have "kept_same s s'" using assms t by (simp add: kept_same_def)
    then show ?thesis using same Dead t by (simp add: reg_event_def)
  next
    case AtRegister
    show ?thesis
    proof (cases "l_todo l")
      case Nil
      then have "kept_same s s'" using assms t AtRegister write_file_kept
        by (auto simp: step_register_def write_deduped_def kept_same_def split: sum.splits)
      then show ?thesis using same AtRegister t Nil by (simp add: reg_event_def)
    next
      case (Cons r rs)
      show ?thesis
      proof (cases "rulename r")
        case (Inl e)
        then have "register (l_yf l) r (s, l_content l) = Inl e" by (rule register_fails)
        then have "s' = s" using assms t AtRegister Cons by (simp add: step_register_def)
        then show ?thesis using AtRegister t Cons Inl by (simp add: reg_event_def)
      next
        case (Inr n)
        have ev: "reg_event t = [(n, l_yf l, r)]"
          using AtRegister t Cons Inr by (simp add: reg_event_def)
        obtain sb where rg: "register (l_yf l) r (s, l_content l) = Inr sb"
          using register_succeeds[OF Inr] by blast
        then have "s' = fst sb" using assms t AtRegister Cons by (simp add: step_register_def)
        then show ?thesis using register_names[OF rg Inr] ev by simp
      qed
    qed
  qed
qed

subsection \<open>The rules registered in a run\<close>

lemma firsts_from_append:
  "firsts_from seen (a @ b) = firsts_from seen a @ firsts_from (seen \<union> fst ` set a) b"
proof (induction a arbitrary: seen)
  case Nil
  then show ?case by simp
next
  case (Cons e a)
  show ?case
  proof (cases "fst e \<in> seen")
    case True
    then have "seen \<union> fst ` set (e # a) = seen \<union> fst ` set a" by auto
    then show ?thesis using True Cons by simp
  next
    case False
    have "seen \<union> fst ` set (e # a) = insert (fst e) seen \<union> fst ` set a" by auto
    then show ?thesis using False Cons by simp
  qed
qed

lemma firsts_from_names: "fst ` set (firsts_from seen evs) = fst ` set evs - seen"
  by (induction evs arbitrary: seen) auto

lemma firsts_from_subset: "set (firsts_from seen evs) \<subseteq> set evs"
  by (induction evs arbitrary: seen) auto

lemma firsts_from_distinct: "distinct (map fst (firsts_from seen evs))"
proof (induction evs arbitrary: seen)
  case Nil
  then show ?case by simp
next
  case (Cons e evs)
  have "fst e \<notin> fst ` set (firsts_from (insert (fst e) seen) evs)"
    unfolding firsts_from_names by simp
  then show ?case using Cons by simp
qed

lemma firsts_from_first:
  "e \<in> set (firsts_from seen evs) \<Longrightarrow>
   \<exists>pre post. evs = pre @ e # post \<and> fst e \<notin> fst ` set pre \<and> fst e \<notin> seen"
proof (induction evs arbitrary: seen)
  case Nil
  then show ?case by simp
next
  case (Cons a evs)
  show ?case
  proof (cases "fst a \<in> seen")
    case True
    then have "e \<in> set (firsts_from seen evs)" using Cons.prems by simp
    then obtain pre post where p: "evs = pre @ e # post" "fst e \<notin> fst ` set pre" "fst e \<notin> seen"
      using Cons.IH by blast
    then have "fst e \<noteq> fst a" using True by auto
    then have "a # evs = (a # pre) @ e # post \<and> fst e \<notin> fst ` set (a # pre) \<and> fst e \<notin> seen"
      using p by simp
    then show ?thesis by blast
  next
    case False
    show ?thesis
    proof (cases "e = a")
      case True
      then have "a # evs = [] @ e # evs \<and> fst e \<notin> fst ` set [] \<and> fst e \<notin> seen"
        using False by simp
      then show ?thesis by blast
    next
      case ne: False
      then have "e \<in> set (firsts_from (insert (fst a) seen) evs)"
        using Cons.prems False by simp
      then obtain pre post where p: "evs = pre @ e # post" "fst e \<notin> fst ` set pre"
        "fst e \<notin> insert (fst a) seen"
        using Cons.IH by blast
      then have "a # evs = (a # pre) @ e # post \<and> fst e \<notin> fst ` set (a # pre) \<and> fst e \<notin> seen"
        by simp
      then show ?thesis by blast
    qed
  qed
qed

lemma reg_event_genuine:
  assumes "e \<in> set (reg_event t)"
  shows "rulename (snd (snd e)) = Inr (fst e)"
proof (cases "fst t = AtRegister")
  case False
  then show ?thesis using assms by (simp add: reg_event_def)
next
  case True
  show ?thesis
  proof (cases "l_todo (snd t)")
    case Nil
    then show ?thesis using assms True by (simp add: reg_event_def)
  next
    case (Cons r rs)
    show ?thesis
    proof (cases "rulename r")
      case (Inl a)
      then show ?thesis using assms Cons True by (simp add: reg_event_def)
    next
      case (Inr n)
      then show ?thesis using assms Cons True by (simp add: reg_event_def)
    qed
  qed
qed

lemma run_names:
  "run env out c evs c' \<Longrightarrow>
   rule_names (snd c') = rule_names (snd c) \<union> fst ` set evs
   \<and> all_yara_rules (snd c')
      = all_yara_rules (snd c) \<union> entry ` set (firsts_from (rule_names (snd c)) evs)
   \<and> (\<forall>e \<in> set evs. rulename (snd (snd e)) = Inr (fst e))"
proof (induction rule: run.induct)
  case (run_done c)
  then show ?case by simp
next
  case (run_step i ts s t' s' evs c)
  have st: "rule_names s' = rule_names s \<union> fst ` set (reg_event (ts ! i))"
    "all_yara_rules s'
       = all_yara_rules s \<union> entry ` set (firsts_from (rule_names s) (reg_event (ts ! i)))"
    using thread_step_names[OF run_step(3)] by auto
  have ih: "rule_names (snd c) = rule_names s' \<union> fst ` set evs"
    "all_yara_rules (snd c)
       = all_yara_rules s' \<union> entry ` set (firsts_from (rule_names s') evs)"
    "\<forall>e \<in> set evs. rulename (snd (snd e)) = Inr (fst e)"
    using run_step.IH by auto
  have 1: "rule_names (snd c) = rule_names s \<union> fst ` set (reg_event (ts ! i) @ evs)"
    unfolding ih(1) st(1) by auto
  have 2: "all_yara_rules (snd c)
           = all_yara_rules s \<union> entry ` set (firsts_from (rule_names s) (reg_event (ts ! i) @ evs))"
    unfolding ih(2) st firsts_from_append by auto
  have 3: "\<forall>e \<in> set (reg_event (ts ! i) @ evs). rulename (snd (snd e)) = Inr (fst e)"
    using ih(3) reg_event_genuine[of _ "ts ! i"] by auto
  show ?case using 1 2 3 by simp
qed

lemma run_trans:
  "run env out c1 e1 c2 \<Longrightarrow> run env out c2 e2 c3 \<Longrightarrow> run env out c1 (e1 @ e2) c3"
proof (induction rule: run.induct)
  case (run_done c)
  then show ?case by simp
next
  case (run_step i ts s t' s' evs c)
  have "run env out (ts[i := t'], s') (evs @ e2) c3" using run_step by simp
  then have "run env out (ts, s) (reg_event (ts ! i) @ (evs @ e2)) c3"
    using run_step(1,2,3) run.run_step by blast
  then show ?case by simp
qed



subsection \<open>The serial pass is a run of one thread\<close>

lemma run_single:
  assumes "enabled t s" and "thread_step env out t s = (t', s')"
    and "run env out ([t'], s') evs c"
  shows "run env out ([t], s) (reg_event t @ evs) c"
  using run.run_step[of 0 "[t]" s env out t' s' evs c] assms by simp

lemma run_one:
  assumes "enabled t s" and "thread_step env out t s = (t', s')"
  shows "run env out ([t], s) (reg_event t) ([t'], s')"
  using run_single[OF assms run.run_done] by simp

lemma enabled_unlocked:
  "\<not> lock_held s \<Longrightarrow> \<not> finished t \<Longrightarrow> \<not> is_dead t \<Longrightarrow> enabled t s"
  by (simp add: enabled_def)

lemma falsy_the_list: "falsy x = (the_list x = [])"
  by (cases x) (auto simp: falsy_def the_list_def)

lemma register_lock:
  assumes "register yf r (s, b) = Inr sb"
  shows "lock_held (fst sb) = lock_held s"
proof (cases "rulename r")
  case (Inl a)
  then show ?thesis using assms by (simp add: register_def)
next
  case (Inr n)
  then show ?thesis using register_names[OF assms Inr] by simp
qed

lemma events_of_Cons: "events_of yf (r # rs) = events_of yf [r] @ events_of yf rs"
  by (simp add: events_of_def)

lemma reg_event_events_of:
  "l_todo l = r # rs \<Longrightarrow> l_yf l = yf \<Longrightarrow> reg_event (AtRegister, l) = events_of yf [r]"
  by (cases "rulename r") (simp_all add: reg_event_def events_of_def)

lemma sim_register:
  "register_all yf rs (s, b) = Inr sb \<Longrightarrow> \<not> lock_held s \<Longrightarrow> l_yf l = yf
   \<Longrightarrow> l_todo l = rs \<Longrightarrow> l_content l = b
   \<Longrightarrow> \<exists>l'. run env out ([(AtRegister, l)], s) (events_of yf rs) ([(AtRegister, l')], fst sb)
         \<and> l_todo l' = [] \<and> l_content l' = snd sb \<and> l_yf l' = yf
         \<and> l_files l' = l_files l \<and> \<not> lock_held (fst sb)"
proof (induction rs arbitrary: s b l)
  case Nil
  then have "sb = (s, b)" by simp
  then have "run env out ([(AtRegister, l)], s) (events_of yf []) ([(AtRegister, l)], fst sb)
         \<and> l_todo l = [] \<and> l_content l = snd sb \<and> l_yf l = yf
         \<and> l_files l = l_files l \<and> \<not> lock_held (fst sb)"
    using Nil run.run_done by (simp add: events_of_def)
  then show ?case by blast
next
  case (Cons r rs)
  from Cons.prems(1) obtain sb1 where r1: "register yf r (s, b) = Inr sb1"
    and r2: "register_all yf rs sb1 = Inr sb"
    by (auto split: sum.splits)
  let ?l1 = "l\<lparr>l_todo := rs, l_content := snd sb1\<rparr>"
  have lk: "\<not> lock_held (fst sb1)" using register_lock[OF r1] Cons.prems(2) by simp
  have st: "thread_step env out (AtRegister, l) s = ((AtRegister, ?l1), fst sb1)"
    using r1 Cons.prems(3,4,5) by (simp add: step_register_def)
  have en: "enabled (AtRegister, l) s"
    using Cons.prems(2) by (simp add: enabled_def finished_def is_dead_def)
  have ev: "reg_event (AtRegister, l) = events_of yf [r]"
    using reg_event_events_of Cons.prems(3,4) by blast
  have "register_all yf rs (fst sb1, snd sb1) = Inr sb" using r2 by simp
  from Cons.IH[OF this lk, of ?l1] Cons.prems(3) obtain l' where
    ih: "run env out ([(AtRegister, ?l1)], fst sb1) (events_of yf rs) ([(AtRegister, l')], fst sb)"
      "l_todo l' = []" "l_content l' = snd sb" "l_yf l' = yf" "l_files l' = l_files ?l1"
      "\<not> lock_held (fst sb)"
    by auto
  have "run env out ([(AtRegister, l)], s) (reg_event (AtRegister, l) @ events_of yf rs)
          ([(AtRegister, l')], fst sb)"
    using run_single[OF en st ih(1)] .
  then have "run env out ([(AtRegister, l)], s) (events_of yf (r # rs))
          ([(AtRegister, l')], fst sb)"
    unfolding ev events_of_Cons[of yf r rs] .
  then show ?case using ih by auto
qed

lemma rules_dir_lock:
  assumes "rules_dir out (count_rules s r) yf = Inr s1"
  shows "lock_held s1 = lock_held s"
proof (cases "isdir (count_rules s r) (new_yf_rule_dir out yf)")
  case True
  then have "s1 = count_rules s r" using assms by (simp add: rules_dir_def)
  then show ?thesis by (simp add: count_rules_def)
next
  case False
  then have "mkdir (count_rules s r) (new_yf_rule_dir out yf) = Inr s1"
    using assms by (simp add: rules_dir_def)
  then show ?thesis using mkdir_frame by (fastforce simp: count_rules_def)
qed

lemma sim_rules:
  assumes "process_rules env out s yf r b = Inr s'" and "r \<noteq> []" and "\<not> lock_held s"
    and "l_rules l = r" and "l_yf l = yf" and "l_content l = b"
  shows "\<exists>l'. run env out ([(AtRules, l)], s) (events_of yf r) ([(AtLoop, l')], s')
           \<and> l_files l' = l_files l \<and> \<not> lock_held s'"
proof -
  from assms(1) obtain s1 sb where
    d: "rules_dir out (count_rules s r) yf = Inr s1"
    and g: "register_all yf r (s1, b) = Inr sb"
    and w: "write_deduped env out (fst sb) yf (snd sb) = Inr s'"
    by (auto simp: process_rules_def split: sum.splits)
  let ?l1 = "l\<lparr>l_todo := r\<rparr>"
  have lk1: "\<not> lock_held s1" using rules_dir_lock[OF d] assms(3) by simp
  have st1: "thread_step env out (AtRules, l) s = ((AtRegister, ?l1), s1)"
    using d assms(2,4,5) by simp
  have en1: "enabled (AtRules, l) s"
    using assms(3) by (simp add: enabled_def finished_def is_dead_def)
  have ev1: "reg_event (AtRules, l) = []" by (simp add: reg_event_def)
  from sim_register[OF g lk1, of ?l1 env out] assms(5,6) obtain l' where
    rg: "run env out ([(AtRegister, ?l1)], s1) (events_of yf r) ([(AtRegister, l')], fst sb)"
      "l_todo l' = []" "l_content l' = snd sb" "l_yf l' = yf" "l_files l' = l_files ?l1"
      "\<not> lock_held (fst sb)"
    by auto
  have st2: "thread_step env out (AtRegister, l') (fst sb) = ((AtLoop, l'), s')"
    using w rg(2,3,4) by (simp add: step_register_def)
  have en2: "enabled (AtRegister, l') (fst sb)"
    using rg(6) by (simp add: enabled_def finished_def is_dead_def)
  have ev2: "reg_event (AtRegister, l') = []" using rg(2) by (simp add: reg_event_def)
  have lk2: "\<not> lock_held s'"
    using w rg(6) write_file_frame by (fastforce simp: write_deduped_def)
  have "run env out ([(AtRules, l)], s) (reg_event (AtRules, l) @ events_of yf r)
          ([(AtRegister, l')], fst sb)"
    using run_single[OF en1 st1 rg(1)] .
  then have "run env out ([(AtRules, l)], s) (events_of yf r @ reg_event (AtRegister, l'))
          ([(AtLoop, l')], s')"
    using run_trans[OF _ run_one[OF en2 st2]] ev1 by simp
  then show ?thesis using rg(5) lk2 ev2 by auto
qed

lemma sim_commented:
  assumes "process_commented env out s yf i c = Inr s'" and "c \<noteq> []" and "\<not> lock_held s"
    and "l_imports l = i" and "l_commented l = c" and "l_yf l = yf"
  shows "run env out ([(AtCommented, l)], s) [] ([(AtRules, l)], s') \<and> \<not> lock_held s'"
proof (cases "exists s (new_yf_commented_rule_dir out yf)")
  case True
  then have w: "write_file env s (path_join (new_yf_commented_rule_dir out yf) (basename yf))
               (commented_contents i c) = Inr s'"
    using assms(1) by (simp add: process_commented_def)
  have st1: "thread_step env out (AtCommented, l) s = ((AtWriteCommented, l), s)"
    using True assms(2,5,6) by simp
  have st2: "thread_step env out (AtWriteCommented, l) s = ((AtRules, l), s')"
    using w assms(4,5,6) by simp
  have en: "enabled (AtCommented, l) s" "enabled (AtWriteCommented, l) s"
    using assms(3) by (simp_all add: enabled_def finished_def is_dead_def)
  have ev: "reg_event (AtCommented, l) = []" "reg_event (AtWriteCommented, l) = []"
    by (simp_all add: reg_event_def)
  have "run env out ([(AtCommented, l)], s)
          (reg_event (AtCommented, l) @ reg_event (AtWriteCommented, l)) ([(AtRules, l)], s')"
    using run_single[OF en(1) st1 run_one[OF en(2) st2]] .
  moreover have "\<not> lock_held s'" using write_file_frame[OF w] assms(3) by simp
  ultimately show ?thesis using ev by simp
next
  case False
  then obtain s1 where m: "mkdir s (new_yf_commented_rule_dir out yf) = Inr s1"
    and w: "write_file env s1 (path_join (new_yf_commented_rule_dir out yf) (basename yf))
               (commented_contents i c) = Inr s'"
    using assms(1) by (auto simp: process_commented_def split: sum.splits)
  have lk1: "\<not> lock_held s1" using mkdir_frame[OF m] assms(3) by simp
  have st1: "thread_step env out (AtCommented, l) s = ((AtMkdir, l), s)"
    using False assms(2,5,6) by simp
  have st2: "thread_step env out (AtMkdir, l) s = ((AtWriteCommented, l), s1)"
    using m assms(6) by simp
  have st3: "thread_step env out (AtWriteCommented, l) s1 = ((AtRules, l), s')"
    using w assms(4,5,6) by simp
  have en: "enabled (AtCommented, l) s" "enabled (AtMkdir, l) s"
    "enabled (AtWriteCommented, l) s1"
    using assms(3) lk1 by (simp_all add: enabled_def finished_def is_dead_def)
  have ev: "reg_event (AtCommented, l) = []" "reg_event (AtMkdir, l) = []"
    "reg_event (AtWriteCommented, l) = []"
    by (simp_all add: reg_event_def)
  have "run env out ([(AtCommented, l)], s)
          (reg_event (AtCommented, l) @ reg_event (AtMkdir, l) @ reg_event (AtWriteCommented, l))
          ([(AtRules, l)], s')"
    using run_single[OF en(1) st1 run_single[OF en(2) st2 run_one[OF en(3) st3]]] .
  moreover have "\<not> lock_held s'" using write_file_frame[OF w] lk1 by simp
  ultimately show ?thesis using ev by simp
qed

lemma file_events:
  "extract_file env s yf = Inr (ex, s1) \<Longrightarrow>
   dedupe_events env (yf # fs) out s
     = events_of yf (the_list (fst (snd ex)))
       @ (case process_file env out s yf of Inl e \<Rightarrow> [] | Inr s' \<Rightarrow> dedupe_events env fs out s')"
  by simp

lemma sim_file:
  assumes "process_file env out s yf = Inr s'" and "\<not> lock_held s" and "l_files l = yf # rest"
    and "extract_file env s yf = Inr (ex, s1)"
  shows "\<exists>l'. run env out ([(AtLoop, l)], s) (events_of yf (the_list (fst (snd ex))))
                 ([(AtLoop, l')], s')
           \<and> l_files l' = rest \<and> \<not> lock_held s'"
proof -
  note e = assms(4)
  have lk1: "\<not> lock_held s1"
    using same_but_stdout_fields(9)[OF extract_file_stdout[OF e]] assms(2) by simp
  have en0: "enabled (AtLoop, l) s"
    using assms(2,3) by (simp add: enabled_def finished_def is_dead_def)
  have ev0: "reg_event (AtLoop, l) = []" by (simp add: reg_event_def)
  let ?I = "the_list (fst ex)"
  let ?R = "the_list (fst (snd ex))"
  let ?C = "the_list (snd (snd ex))"
  show ?thesis
  proof (cases "?I = [] \<and> ?R = [] \<and> ?C = []")
    case True
    then have p: "s' = skip_file env s1 yf"
      using assms(1) e by (simp add: process_file_def falsy_the_list)
    have st: "thread_step env out (AtLoop, l) s = ((AtLoop, l\<lparr>l_files := rest\<rparr>), s')"
      using True e p assms(3) by (simp add: step_loop_def falsy_the_list)
    have "\<not> lock_held s'"
      using p lk1 same_but_stdout_fields(9)[OF skip_file_stdout] by simp
    moreover have "run env out ([(AtLoop, l)], s) (events_of yf ?R)
                     ([(AtLoop, l\<lparr>l_files := rest\<rparr>)], s')"
      using run_one[OF en0 st] ev0 True by (simp add: events_of_def)
    ultimately show ?thesis by fastforce
  next
    case False
    let ?l1 = "l\<lparr>l_files := rest, l_yf := yf, l_imports := ?I, l_rules := ?R,
                  l_commented := ?C, l_content := []\<rparr>"
    have st0: "thread_step env out (AtLoop, l) s = ((AtImports, ?l1), s1)"
      using False e assms(3) by (auto simp: step_loop_def falsy_the_list)
    let ?sb = "if ?I \<noteq> [] then merge_imports s1 ?I else (s1, [])"
    let ?l2 = "?l1\<lparr>l_content := snd ?sb\<rparr>"
    have st1: "thread_step env out (AtImports, ?l1) s1 = ((AtCommented, ?l2), fst ?sb)"
      by simp
    have en1: "enabled (AtImports, ?l1) s1"
      using lk1 by (simp add: enabled_def finished_def is_dead_def)
    have ev1: "reg_event (AtImports, ?l1) = []" by (simp add: reg_event_def)
    have lk2: "\<not> lock_held (fst ?sb)" using lk1 by (simp add: merge_imports_def)
    have r01: "run env out ([(AtLoop, l)], s) [] ([(AtCommented, ?l2)], fst ?sb)"
      using run_single[OF en0 st0 run_one[OF en1 st1]] ev0 ev1 by simp
    have pf: "process_file env out s yf =
           (case (if ?C \<noteq> [] then process_commented env out (fst ?sb) yf ?I ?C
                  else Inr (fst ?sb)) of
              Inl e \<Rightarrow> Inl e
            | Inr s2 \<Rightarrow>
                if ?R \<noteq> [] then process_rules env out s2 yf ?R (snd ?sb) else Inr s2)"
      using e False
      by (auto simp: process_file_def falsy_the_list Let_def cong: sum.case_cong)
    from assms(1) obtain s2 where
      c: "(if ?C \<noteq> [] then process_commented env out (fst ?sb) yf ?I ?C
           else Inr (fst ?sb)) = Inr s2"
      and r: "(if ?R \<noteq> [] then process_rules env out s2 yf ?R (snd ?sb) else Inr s2) = Inr s'"
      unfolding pf by (auto split: sum.splits)
    have r12: "run env out ([(AtCommented, ?l2)], fst ?sb) [] ([(AtRules, ?l2)], s2)
               \<and> \<not> lock_held s2"
    proof (cases "?C = []")
      case True
      then have s2: "s2 = fst ?sb" using c by simp
      have st: "thread_step env out (AtCommented, ?l2) (fst ?sb) = ((AtRules, ?l2), s2)"
        using True s2 by simp
      have en: "enabled (AtCommented, ?l2) (fst ?sb)"
        using lk2 by (simp add: enabled_def finished_def is_dead_def)
      have ev: "reg_event (AtCommented, ?l2) = []" by (simp add: reg_event_def)
      show ?thesis using run_one[OF en st] ev lk2 s2 by simp
    next
      case False
      then have "process_commented env out (fst ?sb) yf ?I ?C = Inr s2" using c by simp
      then show ?thesis using sim_commented[OF _ False lk2, of env out yf ?I s2 ?l2] by simp
    qed
    have r23: "\<exists>l'. run env out ([(AtRules, ?l2)], s2) (events_of yf ?R) ([(AtLoop, l')], s')
                 \<and> l_files l' = rest \<and> \<not> lock_held s'"
    proof (cases "?R = []")
      case True
      then have s': "s' = s2" using r by simp
      have st: "thread_step env out (AtRules, ?l2) s2 = ((AtLoop, ?l2), s')"
        using True s' by simp
      have en: "enabled (AtRules, ?l2) s2"
        using r12 by (simp add: enabled_def finished_def is_dead_def)
      have ev: "reg_event (AtRules, ?l2) = []" by (simp add: reg_event_def)
      have "run env out ([(AtRules, ?l2)], s2) (events_of yf ?R) ([(AtLoop, ?l2)], s')"
        using run_one[OF en st] ev True by (simp add: events_of_def)
      moreover have "l_files ?l2 = rest" by simp
      moreover have "\<not> lock_held s'" using s' r12 by simp
      ultimately show ?thesis by blast
    next
      case False
      then have "process_rules env out s2 yf ?R (snd ?sb) = Inr s'" using r by simp
      from sim_rules[OF this False, of ?l2] r12 show ?thesis by simp
    qed
    then obtain l' where
      f: "run env out ([(AtRules, ?l2)], s2) (events_of yf ?R) ([(AtLoop, l')], s')"
      "l_files l' = rest" "\<not> lock_held s'" by blast
    have "run env out ([(AtLoop, l)], s) ([] @ [] @ events_of yf ?R) ([(AtLoop, l')], s')"
      using run_trans[OF r01 run_trans[OF conjunct1[OF r12] f(1)]] .
    then show ?thesis using f(2,3) by auto
  qed
qed

lemma sim_dedupe:
  "dedupe env fs out s = Inr s' \<Longrightarrow> \<not> lock_held s \<Longrightarrow> l_files l = fs
   \<Longrightarrow> \<exists>l'. run env out ([(AtLoop, l)], s) (dedupe_events env fs out s) ([(AtLoop, l')], s')
         \<and> l_files l' = [] \<and> \<not> lock_held s'"
proof (induction fs arbitrary: s l)
  case Nil
  then have "run env out ([(AtLoop, l)], s) (dedupe_events env [] out s) ([(AtLoop, l)], s')
             \<and> l_files l = [] \<and> \<not> lock_held s'"
    using run.run_done by simp
  then show ?case by blast
next
  case (Cons yf fs)
  from Cons.prems(1) obtain s1 where p: "process_file env out s yf = Inr s1"
    and d: "dedupe env fs out s1 = Inr s'"
    by (auto split: sum.splits)
  from p obtain ex s0 where e: "extract_file env s yf = Inr (ex, s0)"
    by (auto simp: process_file_def split: sum.splits)
  have de: "dedupe_events env (yf # fs) out s
            = events_of yf (the_list (fst (snd ex))) @ dedupe_events env fs out s1"
    using e p by simp
  from sim_file[OF p Cons.prems(2) _ e, of l fs] Cons.prems(3) obtain l1 where
    a: "run env out ([(AtLoop, l)], s) (events_of yf (the_list (fst (snd ex))))
          ([(AtLoop, l1)], s1)" "l_files l1 = fs"
      "\<not> lock_held s1" by auto
  from Cons.IH[OF d a(3) a(2)] obtain l2 where
    b: "run env out ([(AtLoop, l1)], s1) (dedupe_events env fs out s1) ([(AtLoop, l2)], s')"
      "l_files l2 = []" "\<not> lock_held s'" by auto
  have "run env out ([(AtLoop, l)], s) (dedupe_events env (yf # fs) out s) ([(AtLoop, l2)], s')"
    unfolding de using run_trans[OF a(1) b(1)] .
  then show ?case using b(2,3) by blast
qed

lemma dedupe_is_a_run:
  assumes "dedupe env yara_files out s = Inr s'" and "\<not> lock_held s"
  shows "\<exists>l. run env out ([thread_start yara_files], s) (dedupe_events env yara_files out s)
               ([(AtLoop, l)], s')
           \<and> l_files l = [] \<and> \<not> lock_held s'"
  using sim_dedupe[OF assms, of "snd (thread_start yara_files)"]
  by (simp add: thread_start_def)

lemma register_known_name:
  assumes "rulename r = Inr n" and "n \<in> rule_names s" and "register yf r (s, b) = Inr sb"
  shows "all_yara_rules (fst sb) = all_yara_rules s \<and> rule_names (fst sb) = rule_names s
         \<and> snd sb = b \<and> total_duplicate_rules (fst sb) = total_duplicate_rules s + 1"
  using assms by (auto simp: register_def Let_def)

lemma projr_Inr: "x = Inr y \<Longrightarrow> projr x = y"
  by simp


text \<open>
  The rule kept for a name. In every run of threads that execute \<open>dedupe\<close> (one thread for
  the serial pass, one for each shard otherwise) from a state without names and kept rules, whatever
  the order of the steps: the names are those of the rules registered, and the kept set
  holds, for each name, the entry of the rule that was registered first under it, and
  nothing else. The serial pass that returns is such a run. A rule registered under a name
  that is already there adds nothing to the kept set nor to the text kept for the file;
  it counts as a duplicate.
\<close>

lemma first_registered_is_kept:
  assumes "rule_names s0 = {}" and "all_yara_rules s0 = {}"
  shows "(run env out (ts, s0) evs (ts', s') \<longrightarrow>
            rule_names s' = fst ` set evs
          \<and> all_yara_rules s' = entry ` set (firsts evs)
          \<and> distinct (map fst (firsts evs))
          \<and> fst ` set (firsts evs) = fst ` set evs
          \<and> (\<forall>e \<in> set evs. rulename (snd (snd e)) = Inr (fst e))
          \<and> (\<forall>e \<in> set (firsts evs).
                \<exists>pre post. evs = pre @ e # post \<and> fst e \<notin> fst ` set pre))
       \<and> (\<not> lock_held s0 \<and> dedupe env yara_files out s0 = Inr s1 \<longrightarrow>
            (\<exists>evs1 l. run env out ([thread_start yara_files], s0) evs1 ([(AtLoop, l)], s1)
                \<and> l_files l = []))
       \<and> (rulename r = Inr n \<and> n \<in> rule_names s \<and> register yf r (s, b) = Inr sb \<longrightarrow>
            all_yara_rules (fst sb) = all_yara_rules s \<and> rule_names (fst sb) = rule_names s
            \<and> snd sb = b \<and> total_duplicate_rules (fst sb) = total_duplicate_rules s + 1)"
proof (intro conjI)
  show "run env out (ts, s0) evs (ts', s') \<longrightarrow>
            rule_names s' = fst ` set evs
          \<and> all_yara_rules s' = entry ` set (firsts evs)
          \<and> distinct (map fst (firsts evs))
          \<and> fst ` set (firsts evs) = fst ` set evs
          \<and> (\<forall>e \<in> set evs. rulename (snd (snd e)) = Inr (fst e))
          \<and> (\<forall>e \<in> set (firsts evs).
                \<exists>pre post. evs = pre @ e # post \<and> fst e \<notin> fst ` set pre)"
  proof
    assume r: "run env out (ts, s0) evs (ts', s')"
    have 1: "rule_names s' = fst ` set evs"
      and 2: "all_yara_rules s' = entry ` set (firsts evs)"
      and 5: "\<forall>e \<in> set evs. rulename (snd (snd e)) = Inr (fst e)"
      using run_names[OF r] assms by (simp_all add: firsts_def)
    have 3: "distinct (map fst (firsts evs))"
      unfolding firsts_def by (rule firsts_from_distinct)
    have 4: "fst ` set (firsts evs) = fst ` set evs"
      unfolding firsts_def firsts_from_names by simp
    have 6: "\<forall>e \<in> set (firsts evs).
                \<exists>pre post. evs = pre @ e # post \<and> fst e \<notin> fst ` set pre"
      unfolding firsts_def using firsts_from_first by blast
    show "rule_names s' = fst ` set evs
          \<and> all_yara_rules s' = entry ` set (firsts evs)
          \<and> distinct (map fst (firsts evs))
          \<and> fst ` set (firsts evs) = fst ` set evs
          \<and> (\<forall>e \<in> set evs. rulename (snd (snd e)) = Inr (fst e))
          \<and> (\<forall>e \<in> set (firsts evs).
                \<exists>pre post. evs = pre @ e # post \<and> fst e \<notin> fst ` set pre)"
      using 1 2 3 4 5 6 by blast
  qed
next
  show "\<not> lock_held s0 \<and> dedupe env yara_files out s0 = Inr s1 \<longrightarrow>
            (\<exists>evs1 l. run env out ([thread_start yara_files], s0) evs1 ([(AtLoop, l)], s1)
                \<and> l_files l = [])"
    using dedupe_is_a_run by blast
next
  show "rulename r = Inr n \<and> n \<in> rule_names s \<and> register yf r (s, b) = Inr sb \<longrightarrow>
            all_yara_rules (fst sb) = all_yara_rules s \<and> rule_names (fst sb) = rule_names s
            \<and> snd sb = b \<and> total_duplicate_rules (fst sb) = total_duplicate_rules s + 1"
    using register_known_name by blast
qed

lemma first_registered_is_kept_witness:
  "rule_names (state0 foo_twice) = {} \<and> all_yara_rules (state0 foo_twice) = {}
   \<and> \<not> lock_held (state0 foo_twice)
   \<and> (\<exists>s1. dedupe env0 [''a/x.yar'', ''b/y.yar''] ''out'' (state0 foo_twice) = Inr s1
         \<and> (\<exists>evs. rule_names s1 = fst ` set evs \<and> all_yara_rules s1 = entry ` set (firsts evs))
         \<and> rule_names s1 = {''rule Foo'', ''rule Bar''}
         \<and> all_yara_rules s1
            = {provenance ''a/x.yar'' ''rule Foo { condition: true }'',
               provenance ''b/y.yar'' ''rule Bar { condition: true }''}
         \<and> total_rules s1 = 3 \<and> total_duplicate_rules s1 = 1)"
proof -
  let ?S = "state0 foo_twice"
  let ?D = "dedupe env0 [''a/x.yar'', ''b/y.yar''] ''out'' ?S"
  have a: "rule_names ?S = {}" and b: "all_yara_rules ?S = {}" and c: "\<not> lock_held ?S"
    by (simp_all add: state0_def)
  have "\<not> isl ?D" by code_simp
  then obtain s1 where d: "?D = Inr s1" using not_isl_Inr by blast
  have p: "projr ?D = s1" using d by (rule projr_Inr)
  have "rule_names (projr ?D) = {''rule Foo'', ''rule Bar''}" by code_simp
  then have n: "rule_names s1 = {''rule Foo'', ''rule Bar''}" unfolding p .
  have "all_yara_rules (projr ?D)
            = {provenance ''a/x.yar'' ''rule Foo { condition: true }'',
               provenance ''b/y.yar'' ''rule Bar { condition: true }''}" by code_simp
  then have k: "all_yara_rules s1
            = {provenance ''a/x.yar'' ''rule Foo { condition: true }'',
               provenance ''b/y.yar'' ''rule Bar { condition: true }''}" unfolding p .
  have "total_rules (projr ?D) = 3 \<and> total_duplicate_rules (projr ?D) = 1" by code_simp
  then have t: "total_rules s1 = 3 \<and> total_duplicate_rules s1 = 1" unfolding p .
  note th = first_registered_is_kept[OF a b]
  have "\<exists>evs1 l. run env0 ''out'' ([thread_start [''a/x.yar'', ''b/y.yar'']], ?S) evs1
                     ([(AtLoop, l)], s1) \<and> l_files l = []"
    by (rule mp[OF conjunct1[OF conjunct2[OF th]] conjI[OF c d]])
  then obtain evs1 l where
    r: "run env0 ''out'' ([thread_start [''a/x.yar'', ''b/y.yar'']], ?S) evs1 ([(AtLoop, l)], s1)"
    by (elim exE conjE)
  have f: "rule_names s1 = fst ` set evs1
          \<and> all_yara_rules s1 = entry ` set (firsts evs1)
          \<and> distinct (map fst (firsts evs1))
          \<and> fst ` set (firsts evs1) = fst ` set evs1
          \<and> (\<forall>e \<in> set evs1. rulename (snd (snd e)) = Inr (fst e))
          \<and> (\<forall>e \<in> set (firsts evs1).
                \<exists>pre post. evs1 = pre @ e # post \<and> fst e \<notin> fst ` set pre)"
    by (rule mp[OF conjunct1[OF th] r])
  have "rule_names s1 = fst ` set evs1 \<and> all_yara_rules s1 = entry ` set (firsts evs1)"
    by (rule conjI[OF conjunct1[OF f] conjunct1[OF conjunct2[OF f]]])
  then have e: "\<exists>evs. rule_names s1 = fst ` set evs \<and> all_yara_rules s1 = entry ` set (firsts evs)"
    by (rule exI)
  have g: "?D = Inr s1
         \<and> (\<exists>evs. rule_names s1 = fst ` set evs \<and> all_yara_rules s1 = entry ` set (firsts evs))
         \<and> rule_names s1 = {''rule Foo'', ''rule Bar''}
         \<and> all_yara_rules s1
            = {provenance ''a/x.yar'' ''rule Foo { condition: true }'',
               provenance ''b/y.yar'' ''rule Bar { condition: true }''}
         \<and> total_rules s1 = 3 \<and> total_duplicate_rules s1 = 1"
    by (intro conjI d e n k conjunct1[OF t] conjunct2[OF t])
  have "\<exists>s1. ?D = Inr s1
         \<and> (\<exists>evs. rule_names s1 = fst ` set evs \<and> all_yara_rules s1 = entry ` set (firsts evs))
         \<and> rule_names s1 = {''rule Foo'', ''rule Bar''}
         \<and> all_yara_rules s1
            = {provenance ''a/x.yar'' ''rule Foo { condition: true }'',
               provenance ''b/y.yar'' ''rule Bar { condition: true }''}
         \<and> total_rules s1 = 3 \<and> total_duplicate_rules s1 = 1"
    using g by (rule exI)
  then show ?thesis
    by (rule conjI[OF a conjI[OF b conjI[OF c]]])
qed

lemma rulename_strip: "rulename (strip r) = rulename r"
proof (cases "strip r = []")
  case True
  have e: "index0 (splitlines []) = Inl IndexError" by code_simp
  have "strip [] = []" by (simp add: strip_def)
  then show ?thesis using True e by (simp add: rulename_def)
next
  case False
  let ?l = "first_line (strip r)"
  let ?rn = "strip (takeWhile (\<lambda>c. c \<noteq> CHR ''{'') (strip ?l))"
  have ns: "\<not> is_space (CHR '':'')" by (simp add: is_space_def)
  show ?thesis
  proof (cases "CHR '':'' \<in> set ?rn")
    case True
    then have "CHR '':'' \<in> set (takeWhile (\<lambda>c. c \<noteq> CHR ''{'') (strip ?l))"
      using set_strip by blast
    then have "CHR '':'' \<in> set (strip ?l)" by (auto dest: set_takeWhileD)
    then have "CHR '':'' \<in> set ?l" using set_strip by blast
    then have m: "CHR '':'' \<in> set (strip r)"
      by (auto simp: first_line_def dest: set_takeWhileD)
    have "strip (takeWhile (\<lambda>x. x \<noteq> CHR '':'') (strip r))
            = strip (takeWhile (\<lambda>x. x \<noteq> CHR '':'') r)"
      using before_strip[OF m ns] .
    then show ?thesis using True False
      by (simp add: rulename_def strip_strip splitlines_first partition_chr_fst py_in_single
            split_chr_first)
  next
    case False
    then show ?thesis using \<open>strip r \<noteq> []\<close>
      by (simp add: rulename_def strip_strip splitlines_first partition_chr_fst py_in_single)
  qed
qed

lemma append_sep_eq:
  assumes "c \<notin> set a" and "c \<notin> set b" and "a @ c # x = b @ c # y"
  shows "a = b \<and> x = y"
proof -
  have t: "c \<notin> set u \<Longrightarrow> takeWhile (\<lambda>d. d \<noteq> c) (u @ c # v) = u" for u v
    by (induction u) auto
  have "takeWhile (\<lambda>d. d \<noteq> c) (a @ c # x) = a" using assms(1) by (rule t)
  moreover have "takeWhile (\<lambda>d. d \<noteq> c) (b @ c # y) = b" using assms(2) by (rule t)
  ultimately have "a = b" using assms(3) by simp
  then show ?thesis using assms(3) by simp
qed

lemma provenance_inj:
  assumes "CHR 0x0A \<notin> set yf1" and "CHR 0x0A \<notin> set yf2"
    and "provenance yf1 r1 = provenance yf2 r2"
  shows "yf1 = yf2 \<and> strip r1 = strip r2"
proof -
  have "yf1 @ CHR 0x0A # (strip r1 @ [CHR 0x0A]) = yf2 @ CHR 0x0A # (strip r2 @ [CHR 0x0A])"
    using assms(3) by (simp add: provenance_def)
  from append_sep_eq[OF assms(1,2) this] show ?thesis by simp
qed

lemma entry_names:
  assumes "rulename (snd (snd e1)) = Inr (fst e1)" and "rulename (snd (snd e2)) = Inr (fst e2)"
    and "CHR 0x0A \<notin> set (fst (snd e1))" and "CHR 0x0A \<notin> set (fst (snd e2))"
    and "entry e1 = entry e2"
  shows "e1 = e2 \<or> (fst e1 = fst e2 \<and> fst (snd e1) = fst (snd e2))"
proof -
  from provenance_inj[OF assms(3,4)] assms(5)
  have p: "fst (snd e1) = fst (snd e2)" and s: "strip (snd (snd e1)) = strip (snd (snd e2))"
    by (simp_all add: entry_def)
  have "rulename (snd (snd e1)) = rulename (snd (snd e2))"
    using rulename_strip[of "snd (snd e1)"] rulename_strip[of "snd (snd e2)"] s by simp
  then have "fst e1 = fst e2" using assms(1,2) by simp
  then show ?thesis using p by simp
qed

text \<open>
  When no path of a registered rule holds a line feed, two registered rules with the same
  entry have the same path and the same stripped text, hence the same name. The entries of
  the rules registered first are then pairwise different, and the kept set has as many
  entries as there are names.
\<close>

lemma one_entry_per_name:
  assumes "rule_names s0 = {}" and "all_yara_rules s0 = {}"
    and "run env out (ts, s0) evs (ts', s')"
    and "\<forall>e \<in> set evs. CHR 0x0A \<notin> set (fst (snd e))"
  shows "inj_on entry (set (firsts evs)) \<and> card (all_yara_rules s') = card (rule_names s')"
proof -
  from run_names[OF assms(3)] assms(1,2) have
    n: "rule_names s' = fst ` set evs"
    and k: "all_yara_rules s' = entry ` set (firsts evs)"
    and g: "\<forall>e \<in> set evs. rulename (snd (snd e)) = Inr (fst e)"
    by (simp_all add: firsts_def)
  have sub: "set (firsts evs) \<subseteq> set evs" unfolding firsts_def by (rule firsts_from_subset)
  have d: "inj_on fst (set (firsts evs))"
    using firsts_from_distinct[of "{}" evs] by (simp add: firsts_def distinct_map)
  have i: "inj_on entry (set (firsts evs))"
  proof (rule inj_onI)
    fix e1 e2
    assume a: "e1 \<in> set (firsts evs)" "e2 \<in> set (firsts evs)" "entry e1 = entry e2"
    then have "e1 \<in> set evs" "e2 \<in> set evs" using sub by auto
    then have "e1 = e2 \<or> (fst e1 = fst e2 \<and> fst (snd e1) = fst (snd e2))"
      using g assms(4) a(3) by (intro entry_names) auto
    then show "e1 = e2" using d a(1,2) by (auto dest: inj_onD)
  qed
  have "card (all_yara_rules s') = card (set (firsts evs))"
    unfolding k using i by (rule card_image)
  also have "\<dots> = card (fst ` set (firsts evs))" using d by (simp add: card_image)
  also have "fst ` set (firsts evs) = fst ` set evs"
    using firsts_from_names[of "{}" evs] by (simp add: firsts_def)
  finally show ?thesis using i n by simp
qed

text \<open>
  Claim C1 on the code. The kept set is a set of texts: the entry of a rule is its text
  under a line that names its file. With the two files of \<open>nl_files\<close>, of which the second
  has a path with a line feed in it, the rule \<open>rule A\<close> of the first file and the rule
  \<open>rule B\<close> of the second have the same entry. The serial pass registers both names, the
  second entry is the one that is already there, and the kept set ends with one entry for
  two names: the merged text holds one rule.
\<close>

theorem kept_entries_collide_at_newline_path:
  "rulename (''rule A {x.yar'' @ [CHR 0x0A] @ ''rule B { condition: true }'') = Inr ''rule A''
   \<and> rulename ''rule B { condition: true }'' = Inr ''rule B''
   \<and> provenance ''d/f.yar'' (''rule A {x.yar'' @ [CHR 0x0A] @ ''rule B { condition: true }'')
       = provenance nl_path ''rule B { condition: true }''
   \<and> \<not> isl (dedupe env0 [''d/f.yar'', nl_path] ''out'' (state0 nl_files))
   \<and> rule_names (projr (dedupe env0 [''d/f.yar'', nl_path] ''out'' (state0 nl_files)))
       = {''rule A'', ''rule B''}
   \<and> all_yara_rules (projr (dedupe env0 [''d/f.yar'', nl_path] ''out'' (state0 nl_files)))
       = {provenance nl_path ''rule B { condition: true }''}
   \<and> card (rule_names (projr (dedupe env0 [''d/f.yar'', nl_path] ''out'' (state0 nl_files)))) = 2
   \<and> card (all_yara_rules (projr (dedupe env0 [''d/f.yar'', nl_path] ''out'' (state0 nl_files)))) = 1
   \<and> merged_rules (projr (dedupe env0 [''d/f.yar'', nl_path] ''out'' (state0 nl_files)))
       = provenance nl_path ''rule B { condition: true }''"
  by code_simp

section \<open>The counts of the report\<close>

text \<open>
  Claim C3 on the code. The report takes \<open>len(all_yara_rules)\<close> for the number of rules
  kept. For the two files of \<open>nl_files\<close> the serial pass sees two rules, of two names, and
  counts no duplicate; the kept set has one entry, since the entries of the two rules are
  the same text: the report says 2 rules, 1 after dedupe, 0 duplicates.
\<close>

theorem report_counts_at_newline_path:
  "\<not> isl (dedupe env0 [''d/f.yar'', nl_path] ''out'' (state0 nl_files))
   \<and> rule_names (projr (dedupe env0 [''d/f.yar'', nl_path] ''out'' (state0 nl_files)))
       = {''rule A'', ''rule B''}
   \<and> total_rules (projr (dedupe env0 [''d/f.yar'', nl_path] ''out'' (state0 nl_files))) = 2
   \<and> total_rules_written (projr (dedupe env0 [''d/f.yar'', nl_path] ''out'' (state0 nl_files))) = 1
   \<and> total_duplicate_rules (projr (dedupe env0 [''d/f.yar'', nl_path] ''out'' (state0 nl_files))) = 0"
  by code_simp

section \<open>The merged file\<close>




lemma finished_at_end: "l_files l = [] \<Longrightarrow> finished (AtLoop, l)"
  by (simp add: finished_def)







section \<open>The imports\<close>

subsection \<open>The matches of the pattern of imports\<close>
































end
